theory Spec2Isabelle
  imports Main "HOL-Library.Char_ord" "HOL-Library.Sublist"
begin

section \<open>Python string methods used by the corrector\<close>

text \<open>
  Texts are \<open>string\<close>s, one \<open>char\<close> per character of the Python \<open>str\<close> (the characters
  of the query language and of the schema are ASCII). Every method below is the Python
  method of the same name, for the arguments the source passes.
\<close>

text \<open>\<open>sub in s\<close> for strings.\<close>

fun contains :: "string \<Rightarrow> string \<Rightarrow> bool" where
  "contains sub [] = (sub = [])"
| "contains sub (c # cs) = (prefix sub (c # cs) \<or> contains sub cs)"

text \<open>
  \<open>s.replace(old, new)\<close>: the non-overlapping copies of \<open>old\<close>, leftmost first, each become
  \<open>new\<close>. With an empty \<open>old\<close> Python inserts \<open>new\<close> before every character and at the end.
\<close>

function replace_py :: "string \<Rightarrow> string \<Rightarrow> string \<Rightarrow> string" where
  "replace_py old new [] = (if old = [] then new else [])"
| "replace_py old new (c # cs) =
     (if old = [] then new @ c # replace_py old new cs
      else if prefix old (c # cs) then new @ replace_py old new (drop (length old) (c # cs))
      else c # replace_py old new cs)"
  by pat_completeness auto
termination
  by (relation "measure (\<lambda>(old, new, s). length s)") (auto simp: neq_Nil_conv)

text \<open>
  \<open>s.split(sep)\<close> for a non-empty separator (Python raises ValueError on an empty one; the
  source only passes the constants \<open>"),("\<close>, \<open>","\<close>, \<open>":"\<close> and \<open>"|"\<close>). The accumulator holds
  the current field, reversed.
\<close>

function split_acc :: "string \<Rightarrow> string \<Rightarrow> string \<Rightarrow> string list" where
  "split_acc sep acc [] = [rev acc]"
| "split_acc sep acc (c # cs) =
     (if sep \<noteq> [] \<and> prefix sep (c # cs)
      then rev acc # split_acc sep [] (drop (length sep) (c # cs))
      else split_acc sep (c # acc) cs)"
  by pat_completeness auto
termination
  by (relation "measure (\<lambda>(sep, acc, s). length s)") (auto simp: neq_Nil_conv)

definition split_py :: "string \<Rightarrow> string \<Rightarrow> string list" where
  "split_py sep s = split_acc sep [] s"

text \<open>\<open>s.lstrip(chars)\<close>, \<open>s.rstrip(chars)\<close>, \<open>s.strip(chars)\<close>, \<open>s.startswith(p)\<close>.\<close>

definition lstrip_py :: "string \<Rightarrow> string \<Rightarrow> string" where
  "lstrip_py chars s = dropWhile (\<lambda>c. c \<in> set chars) s"

definition rstrip_py :: "string \<Rightarrow> string \<Rightarrow> string" where
  "rstrip_py chars s = rev (dropWhile (\<lambda>c. c \<in> set chars) (rev s))"

definition strip_py :: "string \<Rightarrow> string \<Rightarrow> string" where
  "strip_py chars s = rstrip_py chars (lstrip_py chars s)"

definition startswith :: "string \<Rightarrow> string \<Rightarrow> bool" where
  "startswith s p = prefix p s"

section \<open>The regular expressions of \<open>PATTERN_CONFIG\<close>\<close>

text \<open>
  The constructs the three patterns use: a literal character, a character class (a list of
  inclusive ranges), the dot (any character but newline), sequence, the greedy \<open>?\<close> and \<open>*\<close>,
  the lazy \<open>*?\<close>, and a named group.
\<close>

datatype rx =
    Chr char
  | Cls "(char \<times> char) list"
  | Dot
  | Seq "rx list"
  | Opt rx
  | Star rx
  | LazyStar rx
  | Grp string rx

definition in_cls :: "(char \<times> char) list \<Rightarrow> char \<Rightarrow> bool" where
  "in_cls rs c = list_ex (\<lambda>(lo, hi). lo \<le> c \<and> c \<le> hi) rs"

text \<open>
  The matcher is the backtracking matcher of Python's \<open>re\<close>, with its continuation as data:
  the stack holds what is still to match. \<open>Loop\<close> and \<open>LazyLoop\<close> come after one
  iteration of a starred body and ask for another one only when the iteration consumed a
  character; \<open>EndGrp n s0\<close> closes the group \<open>n\<close> that was opened when the rest of the text
  was \<open>s0\<close>. The captures are passed along, so a failed alternative leaves none behind; the
  newest capture of a name is the first one in the list. \<open>bt k s c\<close> is the first success in
  priority order: \<open>Some (captures, rest of the text)\<close>, or \<open>None\<close>.
\<close>

datatype item = R rx | Loop rx nat | LazyLoop rx nat | EndGrp string string

fun wr :: "rx \<Rightarrow> nat" where
  "wr (Chr a) = 1"
| "wr (Cls rs) = 1"
| "wr Dot = 1"
| "wr (Seq rs) = Suc (sum_list (map wr rs))"
| "wr (Opt r) = Suc (wr r)"
| "wr (Star r) = Suc (Suc (wr r))"
| "wr (LazyStar r) = Suc (Suc (wr r))"
| "wr (Grp n r) = Suc (Suc (wr r))"

fun wi :: "nat \<Rightarrow> item \<Rightarrow> nat" where
  "wi m (R r) = wr r"
| "wi m (Loop r n) = (if m < n then Suc (wr (Star r)) else 0)"
| "wi m (LazyLoop r n) = (if m < n then Suc (wr (LazyStar r)) else 0)"
| "wi m (EndGrp n s) = 1"

definition wk :: "nat \<Rightarrow> item list \<Rightarrow> nat" where
  "wk m k = sum_list (map (wi m) k)"

type_synonym captures = "(string \<times> string) list"

function bt :: "item list \<Rightarrow> string \<Rightarrow> captures \<Rightarrow> (captures \<times> string) option" where
  "bt [] s c = Some (c, s)"
| "bt (R (Chr a) # k) s c =
     (case s of [] \<Rightarrow> None | x # xs \<Rightarrow> if x = a then bt k xs c else None)"
| "bt (R (Cls rs) # k) s c =
     (case s of [] \<Rightarrow> None | x # xs \<Rightarrow> if in_cls rs x then bt k xs c else None)"
| "bt (R Dot # k) s c =
     (case s of [] \<Rightarrow> None | x # xs \<Rightarrow> if x \<noteq> CHR 0x0A then bt k xs c else None)"
| "bt (R (Seq rs) # k) s c = bt (map R rs @ k) s c"
| "bt (R (Opt r) # k) s c =
     (case bt (R r # k) s c of Some res \<Rightarrow> Some res | None \<Rightarrow> bt k s c)"
| "bt (R (Star r) # k) s c =
     (case bt (R r # Loop r (length s) # k) s c of Some res \<Rightarrow> Some res | None \<Rightarrow> bt k s c)"
| "bt (Loop r n # k) s c = (if length s < n then bt (R (Star r) # k) s c else None)"
| "bt (R (LazyStar r) # k) s c =
     (case bt k s c of Some res \<Rightarrow> Some res
      | None \<Rightarrow> bt (R r # LazyLoop r (length s) # k) s c)"
| "bt (LazyLoop r n # k) s c = (if length s < n then bt (R (LazyStar r) # k) s c else None)"
| "bt (R (Grp n r) # k) s c = bt (R r # EndGrp n s # k) s c"
| "bt (EndGrp n s0 # k) s c = bt k s ((n, take (length s0 - length s) s0) # c)"
  by pat_completeness auto
termination
  by (relation "measures [\<lambda>(k, s, c). length s, \<lambda>(k, s, c). wk (length s) k]")
     (auto simp: wk_def comp_def)

text \<open>The character classes: \<open>[a-zA-Z0-9_]\<close>, \<open>[:!a-zA-Z0-9_`]\<close>, \<open>[:!a-zA-Z0-9_|`]\<close>,
  \<open>[.0-9]\<close> and \<open>\s\<close> (the whitespace characters below 256).\<close>

definition cls_word :: "(char \<times> char) list" where
  "cls_word = [(CHR ''a'', CHR ''z''), (CHR ''A'', CHR ''Z''), (CHR ''0'', CHR ''9''),
     (CHR ''_'', CHR ''_'')]"

definition cls_node_labels :: "(char \<times> char) list" where
  "cls_node_labels = [(CHR '':'', CHR '':''), (CHR ''!'', CHR ''!''), (CHR ''a'', CHR ''z''),
     (CHR ''A'', CHR ''Z''), (CHR ''0'', CHR ''9''), (CHR ''_'', CHR ''_''),
     (CHR ''`'', CHR ''`'')]"

definition cls_rel_labels :: "(char \<times> char) list" where
  "cls_rel_labels = [(CHR '':'', CHR '':''), (CHR ''!'', CHR ''!''), (CHR ''a'', CHR ''z''),
     (CHR ''A'', CHR ''Z''), (CHR ''0'', CHR ''9''), (CHR ''_'', CHR ''_''),
     (CHR ''|'', CHR ''|''), (CHR ''`'', CHR ''`'')]"

definition cls_hops :: "(char \<times> char) list" where
  "cls_hops = [(CHR ''.'', CHR ''.''), (CHR ''0'', CHR ''9'')]"

definition cls_space :: "(char \<times> char) list" where
  "cls_space = [(CHR 0x09, CHR 0x0D), (CHR 0x1C, CHR 0x20), (CHR 0x85, CHR 0x85),
     (CHR 0xA0, CHR 0xA0)]"

text \<open>\<open>PATTERN_CONFIG\<close>, read in verbose mode (white space and comments dropped).\<close>

definition node1_pattern :: rx where
  "node1_pattern = Grp ''node1'' (Seq [
     Chr CHR ''('',
     Grp ''node1_var_name'' (Star (Cls cls_word)),
     Grp ''node1_labels'' (Star (Cls cls_node_labels)),
     Star (Cls cls_space),
     Star (Grp ''node1_props'' (Seq [Chr CHR ''{'', LazyStar Dot, Chr CHR ''}''])),
     Chr CHR '')''])"

definition arrow_pattern :: rx where
  "arrow_pattern = Grp ''rel'' (Seq [
     Opt (Grp ''rel_left_arrow'' (Chr CHR ''<'')),
     Chr CHR ''-'',
     Opt (Chr CHR ''[''),
     Grp ''rel_var_name'' (Star (Cls cls_word)),
     Grp ''rel_labels'' (Star (Cls cls_rel_labels)),
     Star (Cls cls_space),
     Star (Grp ''rel_props'' (Seq [Chr CHR ''{'', LazyStar Dot, Chr CHR ''}''])),
     Grp ''rel_hops'' (Seq [Opt (Chr CHR ''*''), Star (Cls cls_hops)]),
     Opt (Chr CHR '']''),
     Chr CHR ''-'',
     Opt (Grp ''rel_right_arrow'' (Chr CHR ''>''))])"

definition node2_pattern :: rx where
  "node2_pattern = Grp ''node2'' (Seq [
     Chr CHR ''('',
     Grp ''node2_var_name'' (Star (Cls cls_word)),
     Grp ''node2_labels'' (Star (Cls cls_node_labels)),
     Star (Cls cls_space),
     Star (Grp ''node2_props'' (Seq [Chr CHR ''{'', LazyStar Dot, Chr CHR ''}''])),
     Chr CHR '')''])"

text \<open>The body of the lookahead \<open>(?=(?P<whole_relationship> node1 arrow node2))\<close>.\<close>

definition relationship_pattern :: rx where
  "relationship_pattern =
     Grp ''whole_relationship'' (Seq [node1_pattern, arrow_pattern, node2_pattern])"

text \<open>
  A match object: where the match starts and what its groups captured. \<open>group_py\<close> is
  \<open>None\<close> for a group that took no part in the match, as in Python. \<open>grp\<close> reads a group
  that is outside every optional part of its pattern (it takes part in every match).
\<close>

record match_obj =
  start :: nat
  caps :: captures

definition group_py :: "match_obj \<Rightarrow> string \<Rightarrow> string option" where
  "group_py m n = map_of (caps m) n"

definition grp :: "match_obj \<Rightarrow> string \<Rightarrow> string" where
  "grp m n = (case group_py m n of Some s \<Rightarrow> s | None \<Rightarrow> [])"

text \<open>
  \<open>re.finditer\<close> of the lookahead pattern: the pattern consumes nothing, so every position
  of the text, the end included, gives at most one match, and matches overlap.
\<close>

fun scan_from :: "nat \<Rightarrow> string \<Rightarrow> match_obj list" where
  "scan_from i [] =
     (case bt [R relationship_pattern] [] [] of
        Some (c, rest) \<Rightarrow> [\<lparr>start = i, caps = c\<rparr>] | None \<Rightarrow> [])"
| "scan_from i (x # xs) =
     (case bt [R relationship_pattern] (x # xs) [] of
        Some (c, rest) \<Rightarrow> [\<lparr>start = i, caps = c\<rparr>] | None \<Rightarrow> []) @ scan_from (Suc i) xs"

definition finditer_relationships :: "string \<Rightarrow> match_obj list" where
  "finditer_relationships cypher_text = scan_from 0 cypher_text"

text \<open>
  \<open>re.finditer\<close> of \<open>node1_pattern\<close>: leftmost matches that do not overlap; the search goes
  on where the match ended (one character further after an empty match).
\<close>

function nodes_from :: "nat \<Rightarrow> string \<Rightarrow> match_obj list" where
  "nodes_from i [] = []"
| "nodes_from i (x # xs) =
     (case bt [R node1_pattern] (x # xs) [] of
        Some (c, rest) \<Rightarrow>
          (if length rest < length (x # xs)
           then \<lparr>start = i, caps = c\<rparr> # nodes_from (i + (length (x # xs) - length rest)) rest
           else \<lparr>start = i, caps = c\<rparr> # nodes_from (Suc i) xs)
      | None \<Rightarrow> nodes_from (Suc i) xs)"
  by pat_completeness auto
termination
  by (relation "measure (\<lambda>(i, s). length s)") auto

definition finditer_nodes :: "string \<Rightarrow> match_obj list" where
  "finditer_nodes cypher_text = nodes_from 0 cypher_text"

section \<open>Schema normalisation\<close>

text \<open>A schema entry is a Python tuple of strings, of whatever length the split gives.\<close>

type_synonym schema = "string list list"

definition process_schema :: "string \<Rightarrow> schema" where
  "process_schema schema_text =
     map (split_py '','')
       (split_py ''),(''
          (rstrip_py '')'' (lstrip_py ''('' (replace_py '' '' [] schema_text))))"

section \<open>Detection of relationships\<close>

datatype error = IndexError | UnboundLocalError

record node =
  var_name :: string
  label1 :: string

text \<open>
  The dictionary of one relationship. The keys \<open>is_correct\<close> and \<open>schema_match\<close> are absent
  (\<open>None\<close>) until the schema matcher sets them.
\<close>

record relationship =
  object :: match_obj
  node1 :: node
  node2 :: node
  tup :: "string \<times> string \<times> string"
  direction :: "string option"
  node_labels_same :: bool
  is_variable_length :: bool
  is_multi_label :: bool
  multi_labels :: "string list"
  is_negated_label :: bool
  is_correct :: "bool option"
  schema_match :: "bool option"

text \<open>\<open>next(iter(labels.lstrip(":").replace("`", "").split(":") or [""]))\<close>\<close>

definition first_label :: "string \<Rightarrow> string" where
  "first_label labels =
     (case split_py '':'' (replace_py ''`'' [] (lstrip_py '':'' labels)) of
        [] \<Rightarrow> [] | l # ls \<Rightarrow> l)"

text \<open>
  The dictionary comprehension of \<open>detect_node_labels\<close>: the node matches are visited in
  text order, a later entry for a key replaces an earlier one.
\<close>

definition node_label_map :: "string \<Rightarrow> (string \<rightharpoonup> string)" where
  "node_label_map cypher_text =
     foldl (\<lambda>mp nd. if grp nd ''node1_labels'' \<noteq> []
                     then mp(grp nd ''node1_var_name'' \<mapsto> first_label (grp nd ''node1_labels''))
                     else mp)
       Map.empty (finditer_nodes cypher_text)"

text \<open>\<open>node_label_map.get(var, "")\<close> for a node whose own first label is empty.\<close>

definition propagate :: "(string \<rightharpoonup> string) \<Rightarrow> node \<Rightarrow> node" where
  "propagate mp nd =
     (if label1 nd = []
      then nd\<lparr>label1 := (case mp (var_name nd) of Some l \<Rightarrow> l | None \<Rightarrow> [])\<rparr>
      else nd)"

definition detect_node_labels :: "match_obj \<Rightarrow> string \<Rightarrow> node \<times> node" where
  "detect_node_labels m cypher_text =
     (let n1 = \<lparr>var_name = grp m ''node1_var_name'',
                label1 = first_label (grp m ''node1_labels'')\<rparr>;
          n2 = \<lparr>var_name = grp m ''node2_var_name'',
                label1 = first_label (grp m ''node2_labels'')\<rparr>;
          mp = node_label_map cypher_text
      in (propagate mp n1, propagate mp n2))"

text \<open>\<open>a or b\<close> on the two arrowhead groups: the first one that is neither \<open>None\<close> nor empty.\<close>

definition py_or :: "string option \<Rightarrow> string option \<Rightarrow> string option" where
  "py_or a b = (case a of None \<Rightarrow> b | Some x \<Rightarrow> if x = [] then b else Some x)"

text \<open>\<open>re.sub(r"[\s`:]*", "", label)\<close>: every character of the class is removed.\<close>

definition strip_label :: "string \<Rightarrow> string" where
  "strip_label l =
     filter (\<lambda>c. \<not> in_cls (cls_space @ [(CHR ''`'', CHR ''`''), (CHR '':'', CHR '':'')]) c) l"

definition detect_relationship_characteristics ::
  "match_obj \<Rightarrow> node \<times> node \<Rightarrow> relationship" where
  "detect_relationship_characteristics m ns =
     \<lparr>object = m,
      node1 = fst ns,
      node2 = snd ns,
      tup = (strip_py ''`'' (label1 (fst ns)),
             replace_py ''`'' [] (lstrip_py '':'' (grp m ''rel_labels'')),
             strip_py ''`'' (label1 (snd ns))),
      direction = py_or (group_py m ''rel_left_arrow'') (group_py m ''rel_right_arrow''),
      node_labels_same = (label1 (fst ns) = label1 (snd ns)),
      is_variable_length =
        (grp m ''rel_hops'' = ''*''
         \<or> (contains ''*'' (grp m ''rel_hops'') \<and> contains ''..'' (grp m ''rel_hops''))),
      is_multi_label = contains ''|'' (grp m ''rel_labels''),
      multi_labels = map strip_label (split_py ''|'' (grp m ''rel_labels'')),
      is_negated_label = startswith (lstrip_py '':'' (grp m ''rel_labels'')) ''!'',
      is_correct = None,
      schema_match = None\<rparr>"

text \<open>\<open>[item[i] for item in schema_lst]\<close>: IndexError at an entry with no field \<open>i\<close>.\<close>

definition column :: "nat \<Rightarrow> schema \<Rightarrow> error + string list" where
  "column i schema_lst =
     (if list_all (\<lambda>item. i < length item) schema_lst
      then Inr (map (\<lambda>item. item ! i) schema_lst)
      else Inl IndexError)"

text \<open>An exception raised by \<open>m\<close> ends the computation; otherwise \<open>f\<close> goes on with its value.\<close>

definition raising :: "error + 'a \<Rightarrow> ('a \<Rightarrow> error + 'b) \<Rightarrow> error + 'b" where
  "raising m f = (case m of Inl e \<Rightarrow> Inl e | Inr x \<Rightarrow> f x)"

definition transform_negated_to_multi_label ::
  "relationship \<Rightarrow> schema \<Rightarrow> error + relationship" where
  "transform_negated_to_multi_label r schema_lst =
     (let negated_label = lstrip_py ''!'' (fst (snd (tup r)))
      in raising (column 1 schema_lst) (\<lambda>types.
           Inr (r\<lparr>multi_labels := filter (\<lambda>t. t \<noteq> negated_label) types,
                  is_multi_label := True\<rparr>)))"

definition detect_one :: "string \<Rightarrow> schema \<Rightarrow> match_obj \<Rightarrow> error + relationship" where
  "detect_one cypher_text schema_lst m =
     (let r = detect_relationship_characteristics m (detect_node_labels m cypher_text)
      in if is_negated_label r then transform_negated_to_multi_label r schema_lst else Inr r)"

fun detect_all :: "string \<Rightarrow> schema \<Rightarrow> match_obj list \<Rightarrow> error + relationship list" where
  "detect_all cypher_text schema_lst [] = Inr []"
| "detect_all cypher_text schema_lst (m # ms) =
     (case detect_one cypher_text schema_lst m of
        Inl e \<Rightarrow> Inl e
      | Inr r \<Rightarrow>
          (case detect_all cypher_text schema_lst ms of
             Inl e \<Rightarrow> Inl e
           | Inr rs \<Rightarrow> Inr (r # rs)))"

definition detect_relationships :: "string \<Rightarrow> schema \<Rightarrow> error + relationship list" where
  "detect_relationships cypher_text schema_lst =
     detect_all cypher_text schema_lst (finditer_relationships cypher_text)"

section \<open>The schema matcher\<close>

definition make_left_to_right :: "relationship \<Rightarrow> string \<times> string \<times> string" where
  "make_left_to_right r =
     (case tup r of (a, b, c) \<Rightarrow> if direction r = Some ''<'' then (c, b, a) else (a, b, c))"

text \<open>\<open>not relationship["direction"]\<close>: the value is \<open>None\<close> or the empty string.\<close>

definition is_unfixable :: "relationship \<Rightarrow> bool" where
  "is_unfixable r =
     ((direction r = None \<or> direction r = Some [])
      \<or> label1 (node1 r) = label1 (node2 r)
      \<or> is_variable_length r)"

definition is_complete :: "relationship \<Rightarrow> bool" where
  "is_complete r = (case tup r of (a, b, c) \<Rightarrow> \<not> (a = [] \<or> b = [] \<or> c = []))"

text \<open>The three outcomes of one lookup, as the assignments to the dictionary.\<close>

definition mark_correct :: "relationship \<Rightarrow> relationship" where
  "mark_correct r = r\<lparr>is_correct := Some True, schema_match := Some True\<rparr>"

definition mark_reversed :: "relationship \<Rightarrow> relationship" where
  "mark_reversed r = r\<lparr>is_correct := Some False, schema_match := Some True\<rparr>"

definition mark_no_match :: "relationship \<Rightarrow> relationship" where
  "mark_no_match r = r\<lparr>schema_match := Some False\<rparr>"

text \<open>A Python tuple of three strings equals a schema entry with the same three fields.\<close>

definition as_entry :: "string \<times> string \<times> string \<Rightarrow> string list" where
  "as_entry t = (case t of (a, b, c) \<Rightarrow> [a, b, c])"

definition find_complete_tup_in_schema :: "relationship \<Rightarrow> schema \<Rightarrow> relationship" where
  "find_complete_tup_in_schema r schema_lst =
     (if as_entry (make_left_to_right r) \<in> set schema_lst then mark_correct r
      else if rev (as_entry (make_left_to_right r)) \<in> set schema_lst then mark_reversed r
      else mark_no_match r)"

text \<open>
  \<open>x in zip(column i, column j)\<close>, and after it \<open>x in zip(column i', column j')\<close> when the
  first test fails: the columns are built before the test that uses them.
\<close>

definition lookup2 ::
  "relationship \<Rightarrow> schema \<Rightarrow> string \<times> string \<Rightarrow> nat \<times> nat \<Rightarrow> nat \<times> nat \<Rightarrow> error + relationship"
  where
  "lookup2 r schema_lst x fwd bwd =
     raising (column (fst fwd) schema_lst) (\<lambda>c1.
     raising (column (snd fwd) schema_lst) (\<lambda>c2.
       if x \<in> set (zip c1 c2) then Inr (mark_correct r)
       else
         raising (column (fst bwd) schema_lst) (\<lambda>d1.
         raising (column (snd bwd) schema_lst) (\<lambda>d2.
           if x \<in> set (zip d1 d2) then Inr (mark_reversed r) else Inr (mark_no_match r)))))"

text \<open>\<open>x in column i\<close>, and after it \<open>x in column i'\<close>.\<close>

definition lookup1 :: "relationship \<Rightarrow> schema \<Rightarrow> string \<Rightarrow> nat \<Rightarrow> nat \<Rightarrow> error + relationship"
  where
  "lookup1 r schema_lst x fwd bwd =
     raising (column fwd schema_lst) (\<lambda>c1.
       if x \<in> set c1 then Inr (mark_correct r)
       else
         raising (column bwd schema_lst) (\<lambda>d1.
           if x \<in> set d1 then Inr (mark_reversed r) else Inr (mark_no_match r)))"

definition find_partial_tup_in_schema :: "relationship \<Rightarrow> schema \<Rightarrow> error + relationship" where
  "find_partial_tup_in_schema r schema_lst =
     (case make_left_to_right r of (a, b, c) \<Rightarrow>
        let pieces_existing = (a \<noteq> [], b \<noteq> [], c \<noteq> []) in
        if pieces_existing = (True, True, False) then lookup2 r schema_lst (a, b) (0, 1) (2, 1)
        else if pieces_existing = (False, True, True) then lookup2 r schema_lst (b, c) (1, 2) (1, 0)
        else if pieces_existing = (True, False, True) then lookup2 r schema_lst (a, c) (0, 2) (2, 0)
        else if pieces_existing = (True, False, False) then lookup1 r schema_lst a 0 2
        else if pieces_existing = (False, False, True) then lookup1 r schema_lst c 2 0
        else if pieces_existing = (False, True, False) then
          raising (column 1 schema_lst) (\<lambda>c1.
            if b \<in> set c1 then Inr (mark_correct r) else Inr (mark_no_match r))
        else Inr (mark_correct r))"

definition find_single_label_relationship_in_schema ::
  "relationship \<Rightarrow> schema \<Rightarrow> error + relationship" where
  "find_single_label_relationship_in_schema r schema_lst =
     (if is_unfixable r then Inr (mark_correct r)
      else if is_complete r then Inr (find_complete_tup_in_schema r schema_lst)
      else find_partial_tup_in_schema r schema_lst)"

text \<open>
  The loop of \<open>find_relationship_in_schema\<close> over the candidate labels: each one overwrites
  \<open>tup\<close>, and the loop stops only at a label found in the correct direction.
\<close>

fun find_labels :: "string list \<Rightarrow> relationship \<Rightarrow> schema \<Rightarrow> error + relationship" where
  "find_labels [] r schema_lst = Inr r"
| "find_labels (l # ls) r schema_lst =
     (case find_single_label_relationship_in_schema
             (r\<lparr>tup := (label1 (node1 r), l, label1 (node2 r))\<rparr>) schema_lst of
        Inl e \<Rightarrow> Inl e
      | Inr r' \<Rightarrow> if is_correct r' = Some True then Inr r' else find_labels ls r' schema_lst)"

definition find_relationship_in_schema :: "relationship \<Rightarrow> schema \<Rightarrow> error + relationship" where
  "find_relationship_in_schema r schema_lst = find_labels (multi_labels r) r schema_lst"

section \<open>The direction corrector and the orchestrator\<close>

definition switch_direction :: "string \<Rightarrow> relationship \<Rightarrow> error + string" where
  "switch_direction cypher_text r =
     (let old_relationship = grp (object r) ''whole_relationship'' in
      if direction r = Some ''>'' then
        Inr (replace_py old_relationship
               (replace_py '')-'' '')<-'' (replace_py ''->'' ''-'' old_relationship))
               cypher_text)
      else if direction r = Some ''<'' then
        Inr (replace_py old_relationship
               (replace_py ''-('' ''->('' (replace_py ''<-'' ''-'' old_relationship))
               cypher_text)
      else Inl UnboundLocalError)"

text \<open>The loop of \<open>fix_cypher_relationship_directions\<close> over the detected relationships.\<close>

fun fix_loop :: "relationship list \<Rightarrow> schema \<Rightarrow> string \<Rightarrow> error + string" where
  "fix_loop [] schema_lst cypher_text = Inr cypher_text"
| "fix_loop (rel # rels) schema_lst cypher_text =
     (case find_relationship_in_schema rel schema_lst of
        Inl e \<Rightarrow> Inl e
      | Inr rel' \<Rightarrow>
          if schema_match rel' = Some False then Inr []
          else if is_correct rel' = Some False then
            (case switch_direction cypher_text rel' of
               Inl e \<Rightarrow> Inl e
             | Inr cypher_text' \<Rightarrow> fix_loop rels schema_lst cypher_text')
          else fix_loop rels schema_lst cypher_text)"

definition fix_cypher_relationship_directions :: "string \<Rightarrow> string \<Rightarrow> error + string" where
  "fix_cypher_relationship_directions cypher_text schema_text =
     (let schema_lst = process_schema schema_text in
      case detect_relationships cypher_text schema_lst of
        Inl e \<Rightarrow> Inl e
      | Inr relationships \<Rightarrow> fix_loop relationships schema_lst cypher_text)"

section \<open>Notions for the statements and their proofs\<close>

text \<open>
  An invariant of the matcher for one group name \<open>n\<close> and one character \<open>a\<close>: every group
  named \<open>n\<close> in the pattern has the single character \<open>a\<close> as its body. Then the stack only
  closes \<open>n\<close> right after reading \<open>a\<close>, and every capture of \<open>n\<close> is the string \<open>a\<close>.
\<close>

fun ok_rx :: "string \<Rightarrow> char \<Rightarrow> rx \<Rightarrow> bool" where
  "ok_rx n a (Chr b) = True"
| "ok_rx n a (Cls rs) = True"
| "ok_rx n a Dot = True"
| "ok_rx n a (Seq rs) = list_all (ok_rx n a) rs"
| "ok_rx n a (Opt r) = ok_rx n a r"
| "ok_rx n a (Star r) = ok_rx n a r"
| "ok_rx n a (LazyStar r) = ok_rx n a r"
| "ok_rx n a (Grp m r) = ((m = n \<longrightarrow> r = Chr a) \<and> ok_rx n a r)"

fun ok_item :: "string \<Rightarrow> char \<Rightarrow> item \<Rightarrow> bool" where
  "ok_item n a (R r) = ok_rx n a r"
| "ok_item n a (Loop r i) = ok_rx n a r"
| "ok_item n a (LazyLoop r i) = ok_rx n a r"
| "ok_item n a (EndGrp m s0) = (m \<noteq> n)"

definition ok_stack :: "string \<Rightarrow> char \<Rightarrow> item list \<Rightarrow> string \<Rightarrow> bool" where
  "ok_stack n a k s =
     (list_all (ok_item n a) k
      \<or> (\<exists>s0 k'. k = EndGrp n s0 # k' \<and> take (length s0 - length s) s0 = [a]
            \<and> list_all (ok_item n a) k')
      \<or> (\<exists>k'. k = R (Chr a) # EndGrp n s # k' \<and> list_all (ok_item n a) k'))"

definition ok_caps :: "string \<Rightarrow> char \<Rightarrow> captures \<Rightarrow> bool" where
  "ok_caps n a c = (\<forall>v. (n, v) \<in> set c \<longrightarrow> v = [a])"

text \<open>
  The verdict of a relationship is the pair of its keys \<open>(schema_match, is_correct)\<close>.
  The verdict that one candidate label yields is the verdict of a single lookup for that
  label, started from a dictionary without verdict keys: \<open>correct\<close>, \<open>needs flip\<close> or
  \<open>no match\<close> (the last one sets \<open>schema_match\<close> only).
\<close>

definition verdict :: "relationship \<Rightarrow> bool option \<times> bool option" where
  "verdict r = (schema_match r, is_correct r)"

definition candidate :: "relationship \<Rightarrow> string \<Rightarrow> relationship" where
  "candidate r l =
     r\<lparr>tup := (label1 (node1 r), l, label1 (node2 r)), is_correct := None, schema_match := None\<rparr>"

definition candidate_verdict ::
  "relationship \<Rightarrow> schema \<Rightarrow> string \<Rightarrow> error + (bool option \<times> bool option)" where
  "candidate_verdict r schema_lst l =
     (case find_single_label_relationship_in_schema (candidate r l) schema_lst of
        Inl e \<Rightarrow> Inl e | Inr q \<Rightarrow> Inr (verdict q))"

definition correct_verdict :: "bool option \<times> bool option" where
  "correct_verdict = (Some True, Some True)"

definition needs_flip :: "bool option \<times> bool option" where
  "needs_flip = (Some True, Some False)"

definition no_match :: "bool option \<times> bool option" where
  "no_match = (Some False, None)"

text \<open>
  Two dictionaries of the same occurrence differ at most in \<open>tup\<close>, the verdict keys and the
  label lists; with the same \<open>tup\<close> they put the same question to the schema. A lookup is
  \<open>uniform\<close> on a set of dictionaries when it has one outcome for all of them: the same
  exception, or the same one of the three assignments.
\<close>

definition same_occurrence :: "relationship \<Rightarrow> relationship \<Rightarrow> bool" where
  "same_occurrence r r' =
     (object r' = object r \<and> direction r' = direction r \<and> node1 r' = node1 r
      \<and> node2 r' = node2 r \<and> is_variable_length r' = is_variable_length r)"

definition same_query :: "relationship \<Rightarrow> relationship \<Rightarrow> bool" where
  "same_query r r' = (same_occurrence r r' \<and> tup r' = tup r)"

definition uniform :: "(relationship \<Rightarrow> bool) \<Rightarrow> (relationship \<Rightarrow> error + relationship) \<Rightarrow> bool" where
  "uniform P f =
     ((\<exists>e. \<forall>r. P r \<longrightarrow> f r = Inl e)
      \<or> (\<forall>r. P r \<longrightarrow> f r = Inr (mark_correct r))
      \<or> (\<forall>r. P r \<longrightarrow> f r = Inr (mark_reversed r))
      \<or> (\<forall>r. P r \<longrightarrow> f r = Inr (mark_no_match r)))"

text \<open>What the detection guarantees for each relationship it returns.\<close>

definition detected :: "relationship \<Rightarrow> bool" where
  "detected r = (direction r \<in> {None, Some ''<'', Some ''>''} \<and> is_correct r = None
     \<and> schema_match r = None)"

text \<open>
  The relationships detected in a text (none when the detection raises), and the verdict
  \<open>(schema_match, is_correct)\<close> that the matcher gives to each of them, in scan order.
\<close>

definition occurrences :: "string \<Rightarrow> string \<Rightarrow> relationship list" where
  "occurrences cypher_text schema_text =
     (case detect_relationships cypher_text (process_schema schema_text) of
        Inl e \<Rightarrow> [] | Inr rels \<Rightarrow> rels)"

definition verdict_of :: "schema \<Rightarrow> relationship \<Rightarrow> error + (bool option \<times> bool option)" where
  "verdict_of schema_lst rel =
     (case find_relationship_in_schema rel schema_lst of
        Inl e \<Rightarrow> Inl e | Inr rel' \<Rightarrow> Inr (verdict rel'))"

definition occurrence_verdicts ::
  "string \<Rightarrow> string \<Rightarrow> error + (error + (bool option \<times> bool option)) list" where
  "occurrence_verdicts cypher_text schema_text =
     (case detect_relationships cypher_text (process_schema schema_text) of
        Inl e \<Rightarrow> Inl e
      | Inr rels \<Rightarrow> Inr (map (verdict_of (process_schema schema_text)) rels))"

text \<open>Every entry of the schema has the three fields that the lookups read.\<close>

definition three_fields :: "schema \<Rightarrow> bool" where
  "three_fields schema_lst = list_all (\<lambda>item. 3 \<le> length item) schema_lst"

text \<open>
  The labelled node declarations with the variable name \<open>v\<close>, in text order, and the label
  that a node named \<open>v\<close> without a label of its own inherits.
\<close>

definition labelled_as :: "string \<Rightarrow> string \<Rightarrow> match_obj list" where
  "labelled_as cypher_text v =
     filter (\<lambda>nd. grp nd ''node1_labels'' \<noteq> [] \<and> grp nd ''node1_var_name'' = v)
       (finditer_nodes cypher_text)"

definition inherited_label :: "string \<Rightarrow> string \<Rightarrow> string" where
  "inherited_label cypher_text v =
     (if labelled_as cypher_text v = [] then []
      else first_label (grp (last (labelled_as cypher_text v)) ''node1_labels''))"



text \<open>
  \<open>sep.join(pieces)\<close>. A copy of \<open>sub\<close> starts at the position \<open>j\<close> of \<open>s\<close>; the only copy
  of \<open>sub\<close> in \<open>s\<close> starts at \<open>i\<close>. \<open>rewritten_form\<close> is the value of \<open>new_relationship\<close>
  in \<open>switch_direction\<close> when the direction is \<open>>\<close> or \<open><\<close>; for another direction the
  source binds no value (\<open>switch_direction\<close> raises), and the matched text stands for it.
\<close>

fun join_py :: "string \<Rightarrow> string list \<Rightarrow> string" where
  "join_py sep [] = []"
| "join_py sep [x] = x"
| "join_py sep (x # y # ys) = x @ sep @ join_py sep (y # ys)"

definition occurs_at :: "string \<Rightarrow> string \<Rightarrow> nat \<Rightarrow> bool" where
  "occurs_at sub s j = (j + length sub \<le> length s \<and> take (length sub) (drop j s) = sub)"

definition only_at :: "string \<Rightarrow> string \<Rightarrow> nat \<Rightarrow> bool" where
  "only_at sub s i = list_all (\<lambda>j. occurs_at sub s j \<longrightarrow> j = i) [0..<Suc (length s)]"

definition rewritten_form :: "relationship \<Rightarrow> string" where
  "rewritten_form rel =
     (let old_relationship = grp (object rel) ''whole_relationship'' in
      if direction rel = Some ''>'' then
        replace_py '')-'' '')<-'' (replace_py ''->'' ''-'' old_relationship)
      else if direction rel = Some ''<'' then
        replace_py ''-('' ''->('' (replace_py ''<-'' ''-'' old_relationship)
      else old_relationship)"

text \<open>
  A group that every match of a pattern binds: it lies outside every optional or repeated
  part. \<open>binds_item\<close> is the same for what the stack of the matcher still holds.
\<close>

fun binds :: "string \<Rightarrow> rx \<Rightarrow> bool" where
  "binds n (Chr b) = False"
| "binds n (Cls rs) = False"
| "binds n Dot = False"
| "binds n (Seq rs) = list_ex (binds n) rs"
| "binds n (Opt r) = False"
| "binds n (Star r) = False"
| "binds n (LazyStar r) = False"
| "binds n (Grp m r) = (m = n \<or> binds n r)"

fun binds_item :: "string \<Rightarrow> item \<Rightarrow> bool" where
  "binds_item n (R r) = binds n r"
| "binds_item n (Loop r i) = False"
| "binds_item n (LazyLoop r i) = False"
| "binds_item n (EndGrp m s0) = (m = n)"

section \<open>Lemmas\<close>

subsection \<open>The groups of a match\<close>

lemma ok_stackI: "list_all (ok_item n a) k \<Longrightarrow> ok_stack n a k s"
  by (simp add: ok_stack_def)

lemma bt_ok_caps:
  "bt k s c = Some (c', s') \<Longrightarrow> ok_stack n a k s \<Longrightarrow> ok_caps n a c \<Longrightarrow> ok_caps n a c'"
proof (induction k s c arbitrary: c' s' rule: bt.induct)
  case (1 s c)
  then show ?case by simp
next
  case (2 b k s c)
  then obtain xs where s: "s = b # xs" and r: "bt k xs c = Some (c', s')"
    by (auto split: list.splits if_splits)
  have "ok_stack n a k xs"
    using "2.prems"(2) s by (auto simp: ok_stack_def)
  then show ?case using "2.IH" s r "2.prems"(3) by simp
next
  case (3 rs k s c)
  then obtain x xs where s: "s = x # xs" "in_cls rs x" and r: "bt k xs c = Some (c', s')"
    by (auto split: list.splits if_splits)
  have "ok_stack n a k xs"
    using "3.prems"(2) by (auto simp: ok_stack_def)
  then show ?case using "3.IH" s r "3.prems"(3) by simp
next
  case (4 k s c)
  then obtain x xs where s: "s = x # xs" "x \<noteq> CHR 0x0A" and r: "bt k xs c = Some (c', s')"
    by (auto split: list.splits if_splits)
  have "ok_stack n a k xs"
    using "4.prems"(2) by (auto simp: ok_stack_def)
  then show ?case using "4.IH" s r "4.prems"(3) by simp
next
  case (5 rs k s c)
  have "ok_stack n a (map R rs @ k) s"
    using "5.prems"(2) by (auto simp: ok_stack_def list_all_iff)
  then show ?case using 5 by simp
next
  case (6 r k s c)
  have a1: "ok_stack n a (R r # k) s" and a2: "ok_stack n a k s"
    using "6.prems"(2) by (auto simp: ok_stack_def)
  show ?case
  proof (cases "bt (R r # k) s c")
    case None
    then show ?thesis using 6 a2 by simp
  next
    case (Some res)
    then show ?thesis using 6 a1 by simp
  qed
next
  case (7 r k s c)
  have a1: "ok_stack n a (R r # Loop r (length s) # k) s" and a2: "ok_stack n a k s"
    using "7.prems"(2) by (auto simp: ok_stack_def)
  show ?case
  proof (cases "bt (R r # Loop r (length s) # k) s c")
    case None
    then show ?thesis using 7 a2 by simp
  next
    case (Some res)
    then show ?thesis using 7 a1 by simp
  qed
next
  case (8 r i k s c)
  have "ok_stack n a (R (Star r) # k) s"
    using "8.prems"(2) by (auto simp: ok_stack_def)
  then show ?case using 8 by (simp split: if_splits)
next
  case (9 r k s c)
  have a1: "ok_stack n a (R r # LazyLoop r (length s) # k) s" and a2: "ok_stack n a k s"
    using "9.prems"(2) by (auto simp: ok_stack_def)
  show ?case
  proof (cases "bt k s c")
    case None
    then show ?thesis using 9 a1 by simp
  next
    case (Some res)
    then show ?thesis using 9 a2 by simp
  qed
next
  case (10 r i k s c)
  have "ok_stack n a (R (LazyStar r) # k) s"
    using "10.prems"(2) by (auto simp: ok_stack_def)
  then show ?case using 10 by (simp split: if_splits)
next
  case (11 m r k s c)
  have "ok_stack n a (R r # EndGrp m s # k) s"
    using "11.prems"(2) by (auto simp: ok_stack_def)
  then show ?case using 11 by simp
next
  case (12 m s0 k s c)
  have a1: "ok_stack n a k s"
    using "12.prems"(2) by (auto simp: ok_stack_def)
  have a2: "ok_caps n a ((m, take (length s0 - length s) s0) # c)"
    using "12.prems"(2,3) by (auto simp: ok_stack_def ok_caps_def)
  show ?case using 12 a1 a2 by simp
qed

lemma ok_left: "ok_rx ''rel_left_arrow'' CHR ''<'' relationship_pattern"
  by (simp add: relationship_pattern_def node1_pattern_def node2_pattern_def arrow_pattern_def)

lemma ok_right: "ok_rx ''rel_right_arrow'' CHR ''>'' relationship_pattern"
  by (simp add: relationship_pattern_def node1_pattern_def node2_pattern_def arrow_pattern_def)

lemma bt_relationship_arrows:
  assumes "bt [R relationship_pattern] s [] = Some (c, rest)"
  shows "map_of c ''rel_left_arrow'' \<in> {None, Some ''<''}"
    and "map_of c ''rel_right_arrow'' \<in> {None, Some ''>''}"
proof -
  have "ok_caps ''rel_left_arrow'' CHR ''<'' c"
    using bt_ok_caps [OF assms, of "''rel_left_arrow''" "CHR ''<''"] ok_left
    by (simp add: ok_stack_def ok_caps_def)
  then show "map_of c ''rel_left_arrow'' \<in> {None, Some ''<''}"
    by (cases "map_of c ''rel_left_arrow''") (auto simp: ok_caps_def dest: map_of_SomeD)
  have "ok_caps ''rel_right_arrow'' CHR ''>'' c"
    using bt_ok_caps [OF assms, of "''rel_right_arrow''" "CHR ''>''"] ok_right
    by (simp add: ok_stack_def ok_caps_def)
  then show "map_of c ''rel_right_arrow'' \<in> {None, Some ''>''}"
    by (cases "map_of c ''rel_right_arrow''") (auto simp: ok_caps_def dest: map_of_SomeD)
qed

lemma scan_from_bt:
  "m \<in> set (scan_from i s) \<Longrightarrow> \<exists>s' rest. bt [R relationship_pattern] s' [] = Some (caps m, rest)"
proof (induction i s rule: scan_from.induct)
  case (1 i)
  then show ?case
    by (cases "bt [R relationship_pattern] [] []") fastforce+
next
  case (2 i x xs)
  then show ?case
    by (cases "bt [R relationship_pattern] (x # xs) []") fastforce+
qed

lemma scan_from_arrows:
  assumes "m \<in> set (scan_from i s)"
  shows "group_py m ''rel_left_arrow'' \<in> {None, Some ''<''}"
    and "group_py m ''rel_right_arrow'' \<in> {None, Some ''>''}"
proof -
  obtain s' rest where b: "bt [R relationship_pattern] s' [] = Some (caps m, rest)"
    using scan_from_bt [OF assms] by blast
  show "group_py m ''rel_left_arrow'' \<in> {None, Some ''<''}"
    using bt_relationship_arrows(1) [OF b] by (simp add: group_py_def)
  show "group_py m ''rel_right_arrow'' \<in> {None, Some ''>''}"
    using bt_relationship_arrows(2) [OF b] by (simp add: group_py_def)
qed

lemma bt_binds:
  "bt k s c = Some (c', s') \<Longrightarrow> n \<in> fst ` set c \<or> list_ex (binds_item n) k \<Longrightarrow>
   n \<in> fst ` set c'"
proof (induction k s c arbitrary: c' s' rule: bt.induct)
  case (1 s c)
  then show ?case by simp
next
  case (2 b k s c)
  then show ?case by (auto split: list.splits if_splits)
next
  case (3 rs k s c)
  then show ?case by (auto split: list.splits if_splits)
next
  case (4 k s c)
  then show ?case by (auto split: list.splits if_splits)
next
  case (5 rs k s c)
  have "n \<in> fst ` set c \<or> list_ex (binds_item n) (map R rs @ k)"
    using "5.prems"(2) by (force simp: list_ex_iff)
  then show ?case using 5 by simp
next
  case (6 r k s c)
  have a: "n \<in> fst ` set c \<or> list_ex (binds_item n) k"
    using "6.prems"(2) by simp
  then have b: "n \<in> fst ` set c \<or> list_ex (binds_item n) (R r # k)" by auto
  show ?case
  proof (cases "bt (R r # k) s c")
    case None
    then show ?thesis using 6 a by simp
  next
    case (Some res)
    then show ?thesis using 6 b by simp
  qed
next
  case (7 r k s c)
  have a: "n \<in> fst ` set c \<or> list_ex (binds_item n) k"
    using "7.prems"(2) by simp
  then have b: "n \<in> fst ` set c \<or> list_ex (binds_item n) (R r # Loop r (length s) # k)"
    by auto
  show ?case
  proof (cases "bt (R r # Loop r (length s) # k) s c")
    case None
    then show ?thesis using 7 a by simp
  next
    case (Some res)
    then show ?thesis using 7 b by simp
  qed
next
  case (8 r i k s c)
  have "n \<in> fst ` set c \<or> list_ex (binds_item n) (R (Star r) # k)"
    using "8.prems"(2) by simp
  then show ?case using 8 by (simp split: if_splits)
next
  case (9 r k s c)
  have a: "n \<in> fst ` set c \<or> list_ex (binds_item n) k"
    using "9.prems"(2) by simp
  then have b: "n \<in> fst ` set c \<or> list_ex (binds_item n) (R r # LazyLoop r (length s) # k)"
    by auto
  show ?case
  proof (cases "bt k s c")
    case None
    then show ?thesis using 9 b by simp
  next
    case (Some res)
    then show ?thesis using 9 a by simp
  qed
next
  case (10 r i k s c)
  have "n \<in> fst ` set c \<or> list_ex (binds_item n) (R (LazyStar r) # k)"
    using "10.prems"(2) by simp
  then show ?case using 10 by (simp split: if_splits)
next
  case (11 m r k s c)
  have "n \<in> fst ` set c \<or> list_ex (binds_item n) (R r # EndGrp m s # k)"
    using "11.prems"(2) by auto
  then show ?case using 11 by simp
next
  case (12 m s0 k s c)
  have "n \<in> fst ` set ((m, take (length s0 - length s) s0) # c) \<or> list_ex (binds_item n) k"
    using "12.prems"(2) by auto
  then show ?case using 12 by simp
qed

lemma bound_group:
  assumes "bt [R r] s [] = Some (c, rest)" and "binds n r"
  shows "\<exists>v. map_of c n = Some v"
proof -
  have "n \<in> fst ` set c" using bt_binds [OF assms(1), of n] assms(2) by simp
  then show ?thesis by (cases "map_of c n") (auto simp: map_of_eq_None_iff)
qed

lemma nodes_from_bt:
  "m \<in> set (nodes_from i s) \<Longrightarrow> \<exists>s' rest. bt [R node1_pattern] s' [] = Some (caps m, rest)"
proof (induction i s rule: nodes_from.induct)
  case (1 i)
  then show ?case by simp
next
  case (2 i x xs)
  show ?case
  proof (cases "bt [R node1_pattern] (x # xs) []")
    case None
    then show ?thesis using 2 by simp
  next
    case (Some res)
    obtain c rest where res: "res = (c, rest)" by (cases res) auto
    show ?thesis
    proof (cases "length rest < length (x # xs)")
      case True
      then have "m = \<lparr>start = i, caps = c\<rparr>
          \<or> m \<in> set (nodes_from (i + (length (x # xs) - length rest)) rest)"
        using "2.prems" Some res by (simp del: nodes_from.simps add: nodes_from.simps(2) [of i x xs])
      then show ?thesis
      proof
        assume "m = \<lparr>start = i, caps = c\<rparr>"
        then show ?thesis using Some res by fastforce
      next
        assume "m \<in> set (nodes_from (i + (length (x # xs) - length rest)) rest)"
        then show ?thesis by (rule "2.IH"(2) [OF Some res [symmetric] True])
      qed
    next
      case False
      then have "m = \<lparr>start = i, caps = c\<rparr> \<or> m \<in> set (nodes_from (Suc i) xs)"
        using "2.prems" Some res by (simp del: nodes_from.simps add: nodes_from.simps(2) [of i x xs])
      then show ?thesis
      proof
        assume "m = \<lparr>start = i, caps = c\<rparr>"
        then show ?thesis using Some res by fastforce
      next
        assume "m \<in> set (nodes_from (Suc i) xs)"
        then show ?thesis by (rule "2.IH"(3) [OF Some res [symmetric] False])
      qed
    qed
  qed
qed

text \<open>
  The groups that the corrector reads with string methods take part in every match, so
  \<open>grp\<close> never meets the \<open>None\<close> of a group that did not.
\<close>

lemma relationship_groups_bound:
  assumes "m \<in> set (finditer_relationships cypher_text)"
    and "n \<in> {''whole_relationship'', ''node1_var_name'', ''node1_labels'',
              ''node2_var_name'', ''node2_labels'', ''rel_labels'', ''rel_hops''}"
  shows "\<exists>v. group_py m n = Some v"
proof -
  obtain s' rest where b: "bt [R relationship_pattern] s' [] = Some (caps m, rest)"
    using scan_from_bt assms(1) unfolding finditer_relationships_def by blast
  have "binds n relationship_pattern"
    using assms(2)
    by (auto simp: relationship_pattern_def node1_pattern_def arrow_pattern_def
        node2_pattern_def)
  from bound_group [OF b this] show ?thesis by (simp add: group_py_def)
qed

lemma node_groups_bound:
  assumes "m \<in> set (finditer_nodes cypher_text)"
    and "n \<in> {''node1_var_name'', ''node1_labels''}"
  shows "\<exists>v. group_py m n = Some v"
proof -
  obtain s' rest where b: "bt [R node1_pattern] s' [] = Some (caps m, rest)"
    using nodes_from_bt assms(1) unfolding finditer_nodes_def by blast
  have "binds n node1_pattern"
    using assms(2) by (auto simp: node1_pattern_def)
  from bound_group [OF b this] show ?thesis by (simp add: group_py_def)
qed

subsection \<open>One lookup has one outcome, whatever the verdict keys hold\<close>

lemma lookup2_uniform: "uniform P (\<lambda>r. lookup2 r sch x f b)"
proof (cases "column (fst f) sch")
  case (Inl e)
  then show ?thesis by (simp add: uniform_def lookup2_def raising_def)
next
  case c1: (Inr c1)
  show ?thesis
  proof (cases "column (snd f) sch")
    case (Inl e)
    then show ?thesis using c1 by (simp add: uniform_def lookup2_def raising_def)
  next
    case c2: (Inr c2)
    show ?thesis
    proof (cases "x \<in> set (zip c1 c2)")
      case True
      then show ?thesis using c1 c2 by (simp add: uniform_def lookup2_def raising_def)
    next
      case False
      show ?thesis
      proof (cases "column (fst b) sch")
        case (Inl e)
        then show ?thesis using c1 c2 False by (simp add: uniform_def lookup2_def raising_def)
      next
        case d1: (Inr d1)
        show ?thesis
        proof (cases "column (snd b) sch")
          case (Inl e)
          then show ?thesis using c1 c2 d1 False
            by (simp add: uniform_def lookup2_def raising_def)
        next
          case (Inr d2)
          then show ?thesis using c1 c2 d1 False
            by (cases "x \<in> set (zip d1 d2)") (simp_all add: uniform_def lookup2_def raising_def)
        qed
      qed
    qed
  qed
qed

lemma lookup1_uniform: "uniform P (\<lambda>r. lookup1 r sch x f b)"
proof (cases "column f sch")
  case (Inl e)
  then show ?thesis by (simp add: uniform_def lookup1_def raising_def)
next
  case c1: (Inr c1)
  show ?thesis
  proof (cases "x \<in> set c1")
    case True
    then show ?thesis using c1 by (simp add: uniform_def lookup1_def raising_def)
  next
    case False
    show ?thesis
    proof (cases "column b sch")
      case (Inl e)
      then show ?thesis using c1 False by (simp add: uniform_def lookup1_def raising_def)
    next
      case (Inr d1)
      then show ?thesis using c1 False
        by (cases "x \<in> set d1") (simp_all add: uniform_def lookup1_def raising_def)
    qed
  qed
qed

lemma type_only_uniform:
  "uniform P (\<lambda>r. raising (column 1 sch)
     (\<lambda>c1. if b \<in> set c1 then Inr (mark_correct r) else Inr (mark_no_match r)))"
  by (cases "column 1 sch") (auto simp: uniform_def raising_def)

lemma uniform_cong: "(\<And>r. P r \<Longrightarrow> f r = g r) \<Longrightarrow> uniform P g \<Longrightarrow> uniform P f"
  unfolding uniform_def by metis

lemma mlr_same: "same_query r0 r \<Longrightarrow> make_left_to_right r = make_left_to_right r0"
  by (simp add: same_query_def same_occurrence_def make_left_to_right_def)

lemma partial_uniform: "uniform (same_query r0) (\<lambda>r. find_partial_tup_in_schema r sch)"
proof -
  obtain a b c where abc: "make_left_to_right r0 = (a, b, c)"
    by (cases "make_left_to_right r0") auto
  consider
      (ttf) "a \<noteq> []" "b \<noteq> []" "c = []"
    | (ftt) "a = []" "b \<noteq> []" "c \<noteq> []"
    | (tft) "a \<noteq> []" "b = []" "c \<noteq> []"
    | (tff) "a \<noteq> []" "b = []" "c = []"
    | (fft) "a = []" "b = []" "c \<noteq> []"
    | (ftf) "a = []" "b \<noteq> []" "c = []"
    | (fff) "a = []" "b = []" "c = []"
    | (ttt) "a \<noteq> []" "b \<noteq> []" "c \<noteq> []"
    by blast
  then show ?thesis
  proof cases
    case ttf
    have "\<And>r. same_query r0 r \<Longrightarrow>
        find_partial_tup_in_schema r sch = lookup2 r sch (a, b) (0, 1) (2, 1)"
      using abc ttf by (simp add: find_partial_tup_in_schema_def mlr_same)
    with lookup2_uniform show ?thesis by (rule uniform_cong [rotated])
  next
    case ftt
    have "\<And>r. same_query r0 r \<Longrightarrow>
        find_partial_tup_in_schema r sch = lookup2 r sch (b, c) (1, 2) (1, 0)"
      using abc ftt by (simp add: find_partial_tup_in_schema_def mlr_same)
    with lookup2_uniform show ?thesis by (rule uniform_cong [rotated])
  next
    case tft
    have "\<And>r. same_query r0 r \<Longrightarrow>
        find_partial_tup_in_schema r sch = lookup2 r sch (a, c) (0, 2) (2, 0)"
      using abc tft by (simp add: find_partial_tup_in_schema_def mlr_same)
    with lookup2_uniform show ?thesis by (rule uniform_cong [rotated])
  next
    case tff
    have "\<And>r. same_query r0 r \<Longrightarrow> find_partial_tup_in_schema r sch = lookup1 r sch a 0 2"
      using abc tff by (simp add: find_partial_tup_in_schema_def mlr_same)
    with lookup1_uniform show ?thesis by (rule uniform_cong [rotated])
  next
    case fft
    have "\<And>r. same_query r0 r \<Longrightarrow> find_partial_tup_in_schema r sch = lookup1 r sch c 2 0"
      using abc fft by (simp add: find_partial_tup_in_schema_def mlr_same)
    with lookup1_uniform show ?thesis by (rule uniform_cong [rotated])
  next
    case ftf
    have "\<And>r. same_query r0 r \<Longrightarrow> find_partial_tup_in_schema r sch =
        raising (column 1 sch)
          (\<lambda>c1. if b \<in> set c1 then Inr (mark_correct r) else Inr (mark_no_match r))"
      using abc ftf by (simp add: find_partial_tup_in_schema_def mlr_same)
    with type_only_uniform show ?thesis by (rule uniform_cong [rotated])
  next
    case fff
    have "\<And>r. same_query r0 r \<Longrightarrow> find_partial_tup_in_schema r sch = Inr (mark_correct r)"
      using abc fff by (simp add: find_partial_tup_in_schema_def mlr_same)
    then show ?thesis by (simp add: uniform_def)
  next
    case ttt
    have "\<And>r. same_query r0 r \<Longrightarrow> find_partial_tup_in_schema r sch = Inr (mark_correct r)"
      using abc ttt by (simp add: find_partial_tup_in_schema_def mlr_same)
    then show ?thesis by (simp add: uniform_def)
  qed
qed

lemma complete_uniform:
  "uniform (same_query r0) (\<lambda>r. Inr (find_complete_tup_in_schema r sch))"
proof -
  have "\<And>r. same_query r0 r \<Longrightarrow>
      find_complete_tup_in_schema r sch =
        (if as_entry (make_left_to_right r0) \<in> set sch then mark_correct r
         else if rev (as_entry (make_left_to_right r0)) \<in> set sch then mark_reversed r
         else mark_no_match r)"
    by (simp add: find_complete_tup_in_schema_def mlr_same)
  then show ?thesis
    by (simp add: uniform_def)
qed

lemma unfixable_same: "same_query r0 r \<Longrightarrow> is_unfixable r = is_unfixable r0"
  by (simp add: same_query_def same_occurrence_def is_unfixable_def)

lemma complete_same: "same_query r0 r \<Longrightarrow> is_complete r = is_complete r0"
  by (simp add: same_query_def same_occurrence_def is_complete_def)

lemma single_uniform:
  "uniform (same_query r0) (\<lambda>r. find_single_label_relationship_in_schema r sch)"
proof (cases "is_unfixable r0")
  case True
  then have "\<And>r. same_query r0 r \<Longrightarrow>
      find_single_label_relationship_in_schema r sch = Inr (mark_correct r)"
    by (simp add: find_single_label_relationship_in_schema_def unfixable_same)
  then show ?thesis by (simp add: uniform_def)
next
  case False
  show ?thesis
  proof (cases "is_complete r0")
    case True
    have "\<And>r. same_query r0 r \<Longrightarrow>
        find_single_label_relationship_in_schema r sch = Inr (find_complete_tup_in_schema r sch)"
      using True False
      by (simp add: find_single_label_relationship_in_schema_def unfixable_same complete_same)
    with complete_uniform show ?thesis by (rule uniform_cong [rotated])
  next
    case c: False
    have "\<And>r. same_query r0 r \<Longrightarrow>
        find_single_label_relationship_in_schema r sch = find_partial_tup_in_schema r sch"
      using c False
      by (simp add: find_single_label_relationship_in_schema_def unfixable_same complete_same)
    with partial_uniform show ?thesis by (rule uniform_cong [rotated])
  qed
qed

lemmas verdict_defs = verdict_def correct_verdict_def needs_flip_def no_match_def
lemmas mark_defs = mark_correct_def mark_reversed_def mark_no_match_def

lemma same_query_candidate:
  "same_occurrence r r' \<Longrightarrow>
   same_query (candidate r l) (r'\<lparr>tup := (label1 (node1 r'), l, label1 (node2 r'))\<rparr>)"
  by (simp add: same_query_def same_occurrence_def candidate_def)

lemma same_query_refl: "same_query r r"
  by (simp add: same_query_def same_occurrence_def)

lemma uniformE:
  assumes "uniform P f"
  obtains (raises) e where "\<And>r. P r \<Longrightarrow> f r = Inl e"
    | (correct) "\<And>r. P r \<Longrightarrow> f r = Inr (mark_correct r)"
    | (reversed) "\<And>r. P r \<Longrightarrow> f r = Inr (mark_reversed r)"
    | (absent) "\<And>r. P r \<Longrightarrow> f r = Inr (mark_no_match r)"
  using assms unfolding uniform_def by blast

lemma verdict_marks:
  "verdict (mark_correct (candidate r l)) = correct_verdict"
  "verdict (mark_reversed (candidate r l)) = needs_flip"
  "verdict (mark_no_match (candidate r l)) = no_match"
  by (simp_all add: verdict_defs mark_defs candidate_def)

lemma verdicts_distinct:
  "correct_verdict \<noteq> needs_flip" "correct_verdict \<noteq> no_match" "needs_flip \<noteq> no_match"
  "needs_flip \<noteq> correct_verdict" "no_match \<noteq> correct_verdict" "no_match \<noteq> needs_flip"
  by (simp_all add: verdict_defs)

text \<open>What one candidate label does to the dictionary, from the verdict it yields.\<close>

lemma candidate_step:
  assumes "same_occurrence r r'"
    and rt_def: "rt = r'\<lparr>tup := (label1 (node1 r'), l, label1 (node2 r'))\<rparr>"
  shows "candidate_verdict r sch l = Inl e \<Longrightarrow>
           find_single_label_relationship_in_schema rt sch = Inl e"
    and "candidate_verdict r sch l = Inr v \<Longrightarrow>
           (v = correct_verdict \<and> find_single_label_relationship_in_schema rt sch = Inr (mark_correct rt))
         \<or> (v = needs_flip \<and> find_single_label_relationship_in_schema rt sch = Inr (mark_reversed rt))
         \<or> (v = no_match \<and> find_single_label_relationship_in_schema rt sch = Inr (mark_no_match rt))"
proof -
  have q1: "same_query (candidate r l) rt"
    unfolding rt_def using assms(1) by (rule same_query_candidate)
  have q0: "same_query (candidate r l) (candidate r l)"
    by (rule same_query_refl)
  have u: "uniform (same_query (candidate r l))
             (\<lambda>r. find_single_label_relationship_in_schema r sch)"
    by (rule single_uniform)
  from u show "candidate_verdict r sch l = Inl e \<Longrightarrow>
           find_single_label_relationship_in_schema rt sch = Inl e"
  proof (cases rule: uniformE)
    case (raises e')
    from raises [OF q0] raises [OF q1] show "candidate_verdict r sch l = Inl e \<Longrightarrow> ?thesis"
      by (simp add: candidate_verdict_def)
  next
    case correct
    from correct [OF q0] show "candidate_verdict r sch l = Inl e \<Longrightarrow> ?thesis"
      by (simp add: candidate_verdict_def)
  next
    case reversed
    from reversed [OF q0] show "candidate_verdict r sch l = Inl e \<Longrightarrow> ?thesis"
      by (simp add: candidate_verdict_def)
  next
    case absent
    from absent [OF q0] show "candidate_verdict r sch l = Inl e \<Longrightarrow> ?thesis"
      by (simp add: candidate_verdict_def)
  qed
  from u show "candidate_verdict r sch l = Inr v \<Longrightarrow>
           (v = correct_verdict \<and> find_single_label_relationship_in_schema rt sch = Inr (mark_correct rt))
         \<or> (v = needs_flip \<and> find_single_label_relationship_in_schema rt sch = Inr (mark_reversed rt))
         \<or> (v = no_match \<and> find_single_label_relationship_in_schema rt sch = Inr (mark_no_match rt))"
  proof (cases rule: uniformE)
    case (raises e')
    from raises [OF q0] show "candidate_verdict r sch l = Inr v \<Longrightarrow> ?thesis"
      by (simp add: candidate_verdict_def)
  next
    case correct
    from correct [OF q0] correct [OF q1] show "candidate_verdict r sch l = Inr v \<Longrightarrow> ?thesis"
      by (auto simp add: candidate_verdict_def verdict_marks)
  next
    case reversed
    from reversed [OF q0] reversed [OF q1] show "candidate_verdict r sch l = Inr v \<Longrightarrow> ?thesis"
      by (auto simp add: candidate_verdict_def verdict_marks)
  next
    case absent
    from absent [OF q0] absent [OF q1] show "candidate_verdict r sch l = Inr v \<Longrightarrow> ?thesis"
      by (auto simp add: candidate_verdict_def verdict_marks)
  qed
qed

subsection \<open>The loop over the candidate labels and the loop of the corrector\<close>

lemma unfixable_tup [simp]: "is_unfixable (r\<lparr>tup := t\<rparr>) = is_unfixable r"
  by (simp add: is_unfixable_def)

lemma unfixable_labels:
  "is_unfixable r \<Longrightarrow>
   find_labels (l # ls) r sch = Inr (mark_correct (r\<lparr>tup := (label1 (node1 r), l, label1 (node2 r))\<rparr>))"
  by (simp add: find_single_label_relationship_in_schema_def mark_correct_def)

lemma single_marks:
  assumes "find_single_label_relationship_in_schema r sch = Inr q"
  shows "q = mark_correct r \<or> q = mark_reversed r \<or> q = mark_no_match r"
proof -
  have "uniform (same_query r) (\<lambda>r. find_single_label_relationship_in_schema r sch)"
    by (rule single_uniform)
  then show ?thesis
  proof (cases rule: uniformE)
    case (raises e)
    from raises [OF same_query_refl] assms show ?thesis by simp
  next
    case correct
    from correct [OF same_query_refl] assms show ?thesis by simp
  next
    case reversed
    from reversed [OF same_query_refl] assms show ?thesis by simp
  next
    case absent
    from absent [OF same_query_refl] assms show ?thesis by simp
  qed
qed

lemma same_occurrence_marks:
  "same_occurrence r (mark_correct (r\<lparr>tup := t\<rparr>))"
  "same_occurrence r (mark_reversed (r\<lparr>tup := t\<rparr>))"
  "same_occurrence r (mark_no_match (r\<lparr>tup := t\<rparr>))"
  by (simp_all add: same_occurrence_def mark_defs)

lemma same_occurrence_trans:
  "same_occurrence a b \<Longrightarrow> same_occurrence b c \<Longrightarrow> same_occurrence a c"
  by (simp add: same_occurrence_def)

lemma same_occurrence_refl: "same_occurrence a a"
  by (simp add: same_occurrence_def)

lemma find_labels_same:
  "find_labels ls r sch = Inr r' \<Longrightarrow> same_occurrence r r'"
proof (induction ls arbitrary: r)
  case Nil
  then show ?case by (simp add: same_occurrence_refl)
next
  case (Cons l ls)
  let ?rt = "r\<lparr>tup := (label1 (node1 r), l, label1 (node2 r))\<rparr>"
  from Cons.prems obtain q where q: "find_single_label_relationship_in_schema ?rt sch = Inr q"
    by (cases "find_single_label_relationship_in_schema ?rt sch") auto
  have sq: "same_occurrence r q"
    using single_marks [OF q] same_occurrence_marks [of r] by auto
  show ?case
  proof (cases "is_correct q = Some True")
    case True
    then show ?thesis using Cons.prems q sq by simp
  next
    case False
    then have "find_labels ls q sch = Inr r'" using Cons.prems q by simp
    from Cons.IH [OF this] sq show ?thesis by (rule same_occurrence_trans [rotated])
  qed
qed

lemma unfixable_same_occurrence: "same_occurrence r r' \<Longrightarrow> is_unfixable r' = is_unfixable r"
  by (simp add: same_occurrence_def is_unfixable_def)

lemma find_labels_reversed:
  assumes "find_labels ls r sch = Inr r'" and "is_correct r' = Some False"
    and "is_correct r \<noteq> Some False"
  shows "\<not> is_unfixable r"
proof
  assume u: "is_unfixable r"
  show False
  proof (cases ls)
    case Nil
    then show ?thesis using assms by simp
  next
    case (Cons l ls')
    then show ?thesis using assms unfixable_labels [OF u, of l ls' sch]
      by (simp add: mark_correct_def)
  qed
qed

lemma switch_direction_returns:
  assumes "direction r \<in> {None, Some ''<'', Some ''>''}" and "\<not> is_unfixable r"
  shows "\<exists>t. switch_direction buf r = Inr t"
  using assms by (auto simp: switch_direction_def is_unfixable_def Let_def)

lemma transform_fields:
  "transform_negated_to_multi_label r sch = Inr r' \<Longrightarrow>
   same_occurrence r r' \<and> is_correct r' = is_correct r \<and> schema_match r' = schema_match r"
  by (auto simp: transform_negated_to_multi_label_def raising_def Let_def same_occurrence_def
      split: sum.splits)

lemma characteristics_fields:
  "object (detect_relationship_characteristics m ns) = m"
  "is_correct (detect_relationship_characteristics m ns) = None"
  "schema_match (detect_relationship_characteristics m ns) = None"
  "direction (detect_relationship_characteristics m ns) =
     py_or (group_py m ''rel_left_arrow'') (group_py m ''rel_right_arrow'')"
  by (simp_all add: detect_relationship_characteristics_def)

lemma detect_one_fields:
  assumes "detect_one ct sch m = Inr r"
  shows "object r = m" and "is_correct r = None" and "schema_match r = None"
    and "direction r = py_or (group_py m ''rel_left_arrow'') (group_py m ''rel_right_arrow'')"
  using assms transform_fields [of "detect_relationship_characteristics m (detect_node_labels m ct)" sch r]
  by (auto simp: detect_one_def Let_def characteristics_fields same_occurrence_def split: if_splits)

lemma detect_all_mem:
  "detect_all ct sch ms = Inr rs \<Longrightarrow> r \<in> set rs \<Longrightarrow> \<exists>m \<in> set ms. detect_one ct sch m = Inr r"
proof (induction ms arbitrary: rs)
  case Nil
  then show ?case by simp
next
  case (Cons m ms)
  then show ?case by (auto split: sum.splits)
qed

lemma detected_fields:
  assumes "detect_relationships ct sch = Inr rs" and "r \<in> set rs"
  shows "direction r \<in> {None, Some ''<'', Some ''>''}"
    and "is_correct r = None" and "schema_match r = None"
proof -
  obtain m where m: "m \<in> set (finditer_relationships ct)" and d: "detect_one ct sch m = Inr r"
    using assms detect_all_mem unfolding detect_relationships_def by blast
  show "is_correct r = None" "schema_match r = None"
    using detect_one_fields [OF d] by simp_all
  have "group_py m ''rel_left_arrow'' \<in> {None, Some ''<''}"
       "group_py m ''rel_right_arrow'' \<in> {None, Some ''>''}"
    using m scan_from_arrows unfolding finditer_relationships_def by blast+
  then show "direction r \<in> {None, Some ''<'', Some ''>''}"
    using detect_one_fields(4) [OF d] by (auto simp: py_or_def)
qed








lemma split_acc_nonempty: "split_acc sep acc s \<noteq> []"
  by (induction sep acc s rule: split_acc.induct) auto

lemma characteristics_labels: "multi_labels (detect_relationship_characteristics m ns) \<noteq> []"
  by (simp add: detect_relationship_characteristics_def split_py_def split_acc_nonempty)

lemma detect_one_labels:
  assumes "detect_one ct sch m = Inr r" and "\<not> is_negated_label r"
  shows "multi_labels r \<noteq> []"
  using assms characteristics_labels [of m "detect_node_labels m ct"]
  by (auto simp: detect_one_def Let_def transform_negated_to_multi_label_def raising_def
      split: if_splits sum.splits)

lemma detected_labels:
  assumes "detect_relationships ct sch = Inr rs" and "r \<in> set rs" and "\<not> is_negated_label r"
  shows "multi_labels r \<noteq> []"
proof -
  obtain m where "detect_one ct sch m = Inr r"
    using assms(1,2) detect_all_mem unfolding detect_relationships_def by blast
  then show ?thesis using assms(3) by (rule detect_one_labels)
qed

lemma unfixable_verdict_of:
  assumes "is_unfixable r" and "multi_labels r \<noteq> []"
  shows "verdict_of sch r = Inr correct_verdict"
proof -
  obtain l ls where "multi_labels r = l # ls" using assms(2) by (cases "multi_labels r") auto
  then show ?thesis
    using unfixable_labels [OF assms(1), of l ls sch]
    by (simp add: verdict_of_def find_relationship_in_schema_def verdict_defs mark_defs)
qed

lemma no_labels_verdict_of:
  assumes "multi_labels r = []"
  shows "verdict_of sch r = Inr (verdict r)"
  using assms by (simp add: verdict_of_def find_relationship_in_schema_def)

lemma fix_loop_skip:
  assumes "verdict_of sch r = Inr v" and "fst v \<noteq> Some False" and "snd v \<noteq> Some False"
  shows "fix_loop (r # rs) sch buf = fix_loop rs sch buf"
  using assms
  by (cases "find_relationship_in_schema r sch") (auto simp: verdict_of_def verdict_def)

lemma mark_fields:
  "verdict (mark_correct r) = correct_verdict"
  "verdict (mark_reversed r) = needs_flip"
  "is_correct (mark_correct r) = Some True"
  "is_correct (mark_reversed r) = Some False"
  "is_correct (mark_no_match r) = is_correct r"
  "schema_match (mark_no_match r) = Some False"
  by (simp_all add: mark_defs verdict_defs)

lemma same_occurrence_step:
  assumes "same_occurrence r0 r"
    and "q = mark_reversed (r\<lparr>tup := t\<rparr>) \<or> q = mark_no_match (r\<lparr>tup := t\<rparr>)"
  shows "same_occurrence r0 q"
proof -
  have "same_occurrence r q"
    using assms(2) by (elim disjE) (simp_all add: same_occurrence_marks)
  with assms(1) show ?thesis by (rule same_occurrence_trans)
qed

lemma loop_first_correct:
  assumes "same_occurrence r0 r" and "is_correct r \<noteq> Some True"
    and "\<forall>l' \<in> set ls1. candidate_verdict r0 sch l' = Inr needs_flip
                        \<or> candidate_verdict r0 sch l' = Inr no_match"
    and "candidate_verdict r0 sch l = Inr correct_verdict"
  shows "\<exists>r'. find_labels (ls1 @ l # ls2) r sch = Inr r' \<and> verdict r' = correct_verdict
              \<and> find_labels (ls1 @ [l]) r sch = Inr r'"
  using assms(1,2,3)
proof (induction ls1 arbitrary: r)
  case Nil
  let ?rt = "r\<lparr>tup := (label1 (node1 r), l, label1 (node2 r))\<rparr>"
  have "find_single_label_relationship_in_schema ?rt sch = Inr (mark_correct ?rt)"
    using candidate_step(2) [OF Nil.prems(1) refl assms(4)] by (simp add: verdicts_distinct)
  then show ?case by (simp add: mark_fields)
next
  case (Cons l' ls1)
  let ?rt = "r\<lparr>tup := (label1 (node1 r), l', label1 (node2 r))\<rparr>"
  have "candidate_verdict r0 sch l' = Inr needs_flip \<or> candidate_verdict r0 sch l' = Inr no_match"
    using Cons.prems(3) by simp
  then obtain v where cv: "candidate_verdict r0 sch l' = Inr v"
    and v: "v = needs_flip \<or> v = no_match" by blast
  from candidate_step(2) [OF Cons.prems(1) refl cv] v
  have "find_single_label_relationship_in_schema ?rt sch = Inr (mark_reversed ?rt)
      \<or> find_single_label_relationship_in_schema ?rt sch = Inr (mark_no_match ?rt)"
    by (auto simp: verdicts_distinct)
  then obtain q where q: "find_single_label_relationship_in_schema ?rt sch = Inr q"
    and qm: "q = mark_reversed ?rt \<or> q = mark_no_match ?rt" by auto
  have nc: "is_correct q \<noteq> Some True"
    using qm Cons.prems(2) by (elim disjE) (simp_all add: mark_fields)
  have so: "same_occurrence r0 q"
    using Cons.prems(1) qm by (rule same_occurrence_step)
  have "\<exists>r'. find_labels (ls1 @ l # ls2) q sch = Inr r' \<and> verdict r' = correct_verdict
              \<and> find_labels (ls1 @ [l]) q sch = Inr r'"
    using Cons.IH [OF so nc] Cons.prems(3) by simp
  then show ?case using q nc by simp
qed

lemma loop_none_correct:
  assumes "same_occurrence r0 r" and "is_correct r \<noteq> Some True"
    and "\<forall>l \<in> set ls. candidate_verdict r0 sch l = Inr needs_flip
                      \<or> candidate_verdict r0 sch l = Inr no_match"
  shows "\<exists>r'. find_labels ls r sch = Inr r' \<and> is_correct r' \<noteq> Some True
           \<and> (ls \<noteq> [] \<and> candidate_verdict r0 sch (last ls) = Inr needs_flip
                \<longrightarrow> verdict r' = needs_flip)
           \<and> (ls \<noteq> [] \<and> candidate_verdict r0 sch (last ls) = Inr no_match
                \<longrightarrow> schema_match r' = Some False)
           \<and> ((\<forall>l \<in> set ls. candidate_verdict r0 sch l = Inr no_match)
                \<longrightarrow> is_correct r' = is_correct r)"
  using assms
proof (induction ls arbitrary: r)
  case Nil
  then show ?case by simp
next
  case (Cons l' ls)
  let ?rt = "r\<lparr>tup := (label1 (node1 r), l', label1 (node2 r))\<rparr>"
  have "candidate_verdict r0 sch l' = Inr needs_flip \<or> candidate_verdict r0 sch l' = Inr no_match"
    using Cons.prems(3) by simp
  then obtain v where cv: "candidate_verdict r0 sch l' = Inr v"
    and v: "v = needs_flip \<or> v = no_match" by blast
  from candidate_step(2) [OF Cons.prems(1) refl cv] v
  have alt: "(v = needs_flip \<and> find_single_label_relationship_in_schema ?rt sch = Inr (mark_reversed ?rt))
      \<or> (v = no_match \<and> find_single_label_relationship_in_schema ?rt sch = Inr (mark_no_match ?rt))"
    by (auto simp: verdicts_distinct)
  then obtain q where q: "find_single_label_relationship_in_schema ?rt sch = Inr q"
    and qm: "(v = needs_flip \<and> q = mark_reversed ?rt) \<or> (v = no_match \<and> q = mark_no_match ?rt)"
    by auto
  have nc: "is_correct q \<noteq> Some True"
    using qm Cons.prems(2) by (elim disjE) (simp_all add: mark_fields)
  have qm': "q = mark_reversed ?rt \<or> q = mark_no_match ?rt" using qm by blast
  have so: "same_occurrence r0 q"
    using Cons.prems(1) qm' by (rule same_occurrence_step)
  have rest: "\<forall>l \<in> set ls. candidate_verdict r0 sch l = Inr needs_flip
                      \<or> candidate_verdict r0 sch l = Inr no_match"
    using Cons.prems(3) by simp
  from Cons.IH [OF so nc rest] obtain r' where
    r': "find_labels ls q sch = Inr r'" "is_correct r' \<noteq> Some True"
      "ls \<noteq> [] \<and> candidate_verdict r0 sch (last ls) = Inr needs_flip \<longrightarrow> verdict r' = needs_flip"
      "ls \<noteq> [] \<and> candidate_verdict r0 sch (last ls) = Inr no_match \<longrightarrow> schema_match r' = Some False"
      "(\<forall>l \<in> set ls. candidate_verdict r0 sch l = Inr no_match) \<longrightarrow> is_correct r' = is_correct q"
    by blast
  have f: "find_labels (l' # ls) r sch = Inr r'"
    using q nc r'(1) by simp
  have a: "candidate_verdict r0 sch (last (l' # ls)) = Inr needs_flip \<longrightarrow> verdict r' = needs_flip"
  proof (cases ls)
    case Nil
    then have "r' = q" using r'(1) by simp
    then show ?thesis using Nil cv qm by (auto simp: mark_fields verdicts_distinct)
  next
    case (Cons x xs)
    then show ?thesis using r'(3) by simp
  qed
  have b: "candidate_verdict r0 sch (last (l' # ls)) = Inr no_match \<longrightarrow> schema_match r' = Some False"
  proof (cases ls)
    case Nil
    then have "r' = q" using r'(1) by simp
    then show ?thesis using Nil cv qm by (auto simp: mark_fields verdicts_distinct)
  next
    case (Cons x xs)
    then show ?thesis using r'(4) by simp
  qed
  have c: "(\<forall>l \<in> set (l' # ls). candidate_verdict r0 sch l = Inr no_match)
             \<longrightarrow> is_correct r' = is_correct r"
  proof
    assume all: "\<forall>l \<in> set (l' # ls). candidate_verdict r0 sch l = Inr no_match"
    then have "v = no_match" using cv by simp
    then have "q = mark_no_match ?rt" using qm by (simp add: verdicts_distinct)
    then have "is_correct q = is_correct r" by (simp add: mark_fields)
    then show "is_correct r' = is_correct r" using r'(5) all by simp
  qed
  show ?case using f r'(2) a b c by blast
qed

subsection \<open>The only exception is the IndexError of a short schema entry\<close>

lemma column_err:
  assumes "column i sch = Inl e" and "i < 3"
  shows "e = IndexError \<and> \<not> three_fields sch"
proof -
  from assms(1) have e: "e = IndexError" and n: "\<not> list_all (\<lambda>item. i < length item) sch"
    by (auto simp: column_def split: if_splits)
  from n obtain item where "item \<in> set sch" and "\<not> i < length item"
    by (auto simp: list_all_iff)
  then have "item \<in> set sch" and "\<not> 3 \<le> length item" using assms(2) by simp_all
  then have "\<not> three_fields sch" by (auto simp: three_fields_def list_all_iff)
  with e show ?thesis by simp
qed

lemma raising_err:
  "raising m f = Inl e \<Longrightarrow> m = Inl e \<or> (\<exists>x. m = Inr x \<and> f x = Inl e)"
  by (cases m) (simp_all add: raising_def)

lemma lookup2_err:
  assumes "lookup2 r sch x f b = Inl e"
    and "fst f < 3" "snd f < 3" "fst b < 3" "snd b < 3"
  shows "e = IndexError \<and> \<not> three_fields sch"
proof -
  have "column (fst f) sch = Inl e \<or> column (snd f) sch = Inl e
      \<or> column (fst b) sch = Inl e \<or> column (snd b) sch = Inl e"
    using assms(1) unfolding lookup2_def
    by (auto dest!: raising_err split: if_splits)
  then show ?thesis using assms(2-5) column_err by blast
qed

lemma lookup1_err:
  assumes "lookup1 r sch x f b = Inl e" and "f < 3" "b < 3"
  shows "e = IndexError \<and> \<not> three_fields sch"
proof -
  have "column f sch = Inl e \<or> column b sch = Inl e"
    using assms(1) unfolding lookup1_def
    by (auto dest!: raising_err split: if_splits)
  then show ?thesis using assms(2,3) column_err by blast
qed

lemma type_only_err:
  assumes "raising (column 1 sch)
     (\<lambda>c1. if b \<in> set c1 then Inr (mark_correct r) else Inr (mark_no_match r)) = Inl e"
  shows "e = IndexError \<and> \<not> three_fields sch"
proof -
  have "column 1 sch = Inl e"
    using assms by (auto dest!: raising_err split: if_splits)
  then show ?thesis using column_err [of 1 sch e] by simp
qed

lemma partial_err:
  assumes "find_partial_tup_in_schema r sch = Inl e"
  shows "e = IndexError \<and> \<not> three_fields sch"
proof -
  obtain a b c where abc: "make_left_to_right r = (a, b, c)"
    by (cases "make_left_to_right r") auto
  consider
      (ttf) "a \<noteq> []" "b \<noteq> []" "c = []"
    | (ftt) "a = []" "b \<noteq> []" "c \<noteq> []"
    | (tft) "a \<noteq> []" "b = []" "c \<noteq> []"
    | (tff) "a \<noteq> []" "b = []" "c = []"
    | (fft) "a = []" "b = []" "c \<noteq> []"
    | (ftf) "a = []" "b \<noteq> []" "c = []"
    | (fff) "a = []" "b = []" "c = []"
    | (ttt) "a \<noteq> []" "b \<noteq> []" "c \<noteq> []"
    by blast
  then show ?thesis
  proof cases
    case ttf
    then have "find_partial_tup_in_schema r sch = lookup2 r sch (a, b) (0, 1) (2, 1)"
      using abc by (simp add: find_partial_tup_in_schema_def)
    then show ?thesis using assms lookup2_err [of r sch "(a, b)" "(0, 1)" "(2, 1)" e] by simp
  next
    case ftt
    then have "find_partial_tup_in_schema r sch = lookup2 r sch (b, c) (1, 2) (1, 0)"
      using abc by (simp add: find_partial_tup_in_schema_def)
    then show ?thesis using assms lookup2_err [of r sch "(b, c)" "(1, 2)" "(1, 0)" e] by simp
  next
    case tft
    then have "find_partial_tup_in_schema r sch = lookup2 r sch (a, c) (0, 2) (2, 0)"
      using abc by (simp add: find_partial_tup_in_schema_def)
    then show ?thesis using assms lookup2_err [of r sch "(a, c)" "(0, 2)" "(2, 0)" e] by simp
  next
    case tff
    then have "find_partial_tup_in_schema r sch = lookup1 r sch a 0 2"
      using abc by (simp add: find_partial_tup_in_schema_def)
    then show ?thesis using assms lookup1_err [of r sch a 0 2 e] by simp
  next
    case fft
    then have "find_partial_tup_in_schema r sch = lookup1 r sch c 2 0"
      using abc by (simp add: find_partial_tup_in_schema_def)
    then show ?thesis using assms lookup1_err [of r sch c 2 0 e] by simp
  next
    case ftf
    then have "find_partial_tup_in_schema r sch =
        raising (column 1 sch)
          (\<lambda>c1. if b \<in> set c1 then Inr (mark_correct r) else Inr (mark_no_match r))"
      using abc by (simp add: find_partial_tup_in_schema_def)
    then show ?thesis using assms type_only_err [of sch b r e] by simp
  next
    case fff
    then have "find_partial_tup_in_schema r sch = Inr (mark_correct r)"
      using abc by (simp add: find_partial_tup_in_schema_def)
    then show ?thesis using assms by simp
  next
    case ttt
    then have "find_partial_tup_in_schema r sch = Inr (mark_correct r)"
      using abc by (simp add: find_partial_tup_in_schema_def)
    then show ?thesis using assms by simp
  qed
qed

lemma single_err:
  assumes "find_single_label_relationship_in_schema r sch = Inl e"
  shows "e = IndexError \<and> \<not> three_fields sch"
proof -
  have "find_partial_tup_in_schema r sch = Inl e"
    using assms by (simp add: find_single_label_relationship_in_schema_def split: if_splits)
  then show ?thesis by (rule partial_err)
qed

lemma find_labels_err:
  "find_labels ls r sch = Inl e \<Longrightarrow> e = IndexError \<and> \<not> three_fields sch"
proof (induction ls arbitrary: r)
  case Nil
  then show ?case by simp
next
  case (Cons l ls)
  let ?rt = "r\<lparr>tup := (label1 (node1 r), l, label1 (node2 r))\<rparr>"
  show ?case
  proof (cases "find_single_label_relationship_in_schema ?rt sch")
    case (Inl e')
    then have "e' = e" using Cons.prems by simp
    then show ?thesis using Inl single_err by blast
  next
    case (Inr q)
    then have "find_labels ls q sch = Inl e"
      using Cons.prems by (simp split: if_splits)
    then show ?thesis by (rule Cons.IH)
  qed
qed

lemma transform_err:
  assumes "transform_negated_to_multi_label r sch = Inl e"
  shows "e = IndexError \<and> \<not> three_fields sch"
proof -
  have "column 1 sch = Inl e"
    using assms unfolding transform_negated_to_multi_label_def Let_def
    by (auto dest!: raising_err)
  then show ?thesis using column_err [of 1 sch e] by simp
qed

lemma detect_one_err:
  "detect_one ct sch m = Inl e \<Longrightarrow> e = IndexError \<and> \<not> three_fields sch"
  using transform_err
  by (auto simp: detect_one_def Let_def split: if_splits)

lemma detect_all_err:
  "detect_all ct sch ms = Inl e \<Longrightarrow> e = IndexError \<and> \<not> three_fields sch"
proof (induction ms)
  case Nil
  then show ?case by simp
next
  case (Cons m ms)
  show ?case
  proof (cases "detect_one ct sch m")
    case (Inl e')
    then have "e' = e" using Cons.prems by simp
    then show ?thesis using Inl detect_one_err by blast
  next
    case (Inr q)
    then have "detect_all ct sch ms = Inl e"
      using Cons.prems by (simp split: sum.splits)
    then show ?thesis by (rule Cons.IH)
  qed
qed

lemma fix_loop_err:
  assumes "\<forall>q \<in> set rs. detected q" and "fix_loop rs sch buf = Inl e"
  shows "e = IndexError \<and> \<not> three_fields sch"
  using assms
proof (induction rs arbitrary: buf)
  case Nil
  then show ?case by simp
next
  case (Cons q rs)
  have dq: "detected q" and drs: "\<forall>q \<in> set rs. detected q" using Cons.prems(1) by simp_all
  show ?case
  proof (cases "find_relationship_in_schema q sch")
    case (Inl e')
    then have "e' = e" using Cons.prems(2) by simp
    then show ?thesis
      using Inl find_labels_err by (simp add: find_relationship_in_schema_def)
  next
    case (Inr q')
    show ?thesis
    proof (cases "schema_match q' = Some False")
      case True
      then show ?thesis using Inr Cons.prems(2) by simp
    next
      case False
      show ?thesis
      proof (cases "is_correct q' = Some False")
        case True
        have "\<not> is_unfixable q"
          using find_labels_reversed [of "multi_labels q" q sch q'] Inr True dq
          by (simp add: find_relationship_in_schema_def detected_def)
        moreover have so: "same_occurrence q q'"
          using Inr find_labels_same by (simp add: find_relationship_in_schema_def)
        ultimately have "\<not> is_unfixable q'" by (simp add: unfixable_same_occurrence)
        moreover have "direction q' \<in> {None, Some ''<'', Some ''>''}"
          using so dq by (simp add: same_occurrence_def detected_def)
        ultimately obtain t where t: "switch_direction buf q' = Inr t"
          using switch_direction_returns by blast
        then have "fix_loop rs sch t = Inl e"
          using Inr False True Cons.prems(2) by simp
        then show ?thesis using Cons.IH [OF drs] by blast
      next
        case f2: False
        then have "fix_loop rs sch buf = Inl e"
          using Inr False Cons.prems(2) by simp
        then show ?thesis using Cons.IH [OF drs] by blast
      qed
    qed
  qed
qed


subsection \<open>The label map\<close>

lemma foldl_last_wins:
  "foldl (\<lambda>mp nd. if P nd then mp(k nd \<mapsto> f nd) else mp) m0 nds v =
     (if filter (\<lambda>nd. P nd \<and> k nd = v) nds = [] then m0 v
      else Some (f (last (filter (\<lambda>nd. P nd \<and> k nd = v) nds))))"
  by (induction nds rule: rev_induct) simp_all

lemma node_label_map_last:
  "node_label_map ct v =
     (if labelled_as ct v = [] then None
      else Some (first_label (grp (last (labelled_as ct v)) ''node1_labels'')))"
  unfolding node_label_map_def labelled_as_def
  by (subst foldl_last_wins) simp

lemma propagate_label:
  "label1 (propagate (node_label_map ct) nd) =
     (if label1 nd \<noteq> [] then label1 nd else inherited_label ct (var_name nd))"
  by (simp add: propagate_def node_label_map_last inherited_label_def)

lemma transform_nodes:
  "transform_negated_to_multi_label r sch = Inr r' \<Longrightarrow>
   node1 r' = node1 r \<and> node2 r' = node2 r \<and> object r' = object r"
  using transform_fields [of r sch r'] by (simp add: same_occurrence_def)

lemma detect_one_nodes:
  assumes "detect_one ct sch m = Inr r"
  shows "node1 r = fst (detect_node_labels m ct)" and "node2 r = snd (detect_node_labels m ct)"
  using assms transform_nodes [of "detect_relationship_characteristics m (detect_node_labels m ct)" sch r]
  by (auto simp: detect_one_def Let_def detect_relationship_characteristics_def split: if_splits)


subsection \<open>The verdict of the loop, and the expansion of a negated type\<close>










subsection \<open>Replacing is splitting and joining\<close>

lemma join_cons: "rest \<noteq> [] \<Longrightarrow> join_py sep (x # rest) = x @ sep @ join_py sep rest"
  by (cases rest) simp_all

lemma split_acc_join:
  "sep \<noteq> [] \<Longrightarrow> join_py sep (split_acc sep acc s) = rev acc @ s"
proof (induction sep acc s rule: split_acc.induct)
  case (1 sep acc)
  then show ?case by simp
next
  case (2 sep acc c cs)
  show ?case
  proof (cases "prefix sep (c # cs)")
    case True
    then obtain t where t: "c # cs = sep @ t" by (auto simp: prefix_def)
    then have d: "drop (length sep) (c # cs) = t" by simp
    have "join_py sep (split_acc sep acc (c # cs))
        = rev acc @ sep @ join_py sep (split_acc sep [] (drop (length sep) (c # cs)))"
      using True "2.prems" by (simp add: join_cons split_acc_nonempty)
    also have "\<dots> = rev acc @ sep @ t"
      using "2.IH"(1) True "2.prems" d by simp
    finally show ?thesis using t by simp
  next
    case False
    then show ?thesis using 2 by simp
  qed
qed

lemma split_acc_replace:
  "sep \<noteq> [] \<Longrightarrow> join_py new (split_acc sep acc s) = rev acc @ replace_py sep new s"
proof (induction sep acc s rule: split_acc.induct)
  case (1 sep acc)
  then show ?case by simp
next
  case (2 sep acc c cs)
  show ?case
  proof (cases "prefix sep (c # cs)")
    case True
    have "join_py new (split_acc sep acc (c # cs))
        = rev acc @ new @ join_py new (split_acc sep [] (drop (length sep) (c # cs)))"
      using True "2.prems" by (simp add: join_cons split_acc_nonempty)
    also have "\<dots> = rev acc @ new @ replace_py sep new (drop (length sep) (c # cs))"
      using "2.IH"(1) True "2.prems" by simp
    finally show ?thesis using True "2.prems" by simp
  next
    case False
    then show ?thesis using 2 by simp
  qed
qed

lemma replace_is_join:
  assumes "old \<noteq> []"
  shows "replace_py old new s = join_py new (split_py old s)"
    and "s = join_py old (split_py old s)"
  using split_acc_replace [OF assms, of new "[]" s] split_acc_join [OF assms, of "[]" s]
  by (simp_all add: split_py_def)

lemma prefix_set: "prefix old s \<Longrightarrow> set old \<subseteq> set s"
  by (auto simp: prefix_def)

lemma replace_absent_char:
  "c \<in> set old \<Longrightarrow> c \<notin> set s \<Longrightarrow> replace_py old new s = s"
proof (induction s)
  case Nil
  then show ?case by auto
next
  case (Cons x xs)
  have "\<not> prefix old (x # xs)"
    using Cons.prems prefix_set [of old "x # xs"] by auto
  moreover have "old \<noteq> []" using Cons.prems(1) by auto
  ultimately show ?case using Cons by simp
qed

lemma replace_no_copy:
  "old \<noteq> [] \<Longrightarrow> \<not> contains old s \<Longrightarrow> replace_py old new s = s"
  by (induction s) simp_all

lemma replace_skip:
  "c \<notin> set p \<Longrightarrow> replace_py (c # old) new (p @ s) = p @ replace_py (c # old) new s"
  by (induction p) auto

lemma replace_hit:
  "old \<noteq> [] \<Longrightarrow> replace_py old new (old @ s) = new @ replace_py old new s"
  by (cases old) simp_all

lemma replace_miss:
  "\<not> prefix old (c # s) \<Longrightarrow> old \<noteq> [] \<Longrightarrow> replace_py old new (c # s) = c # replace_py old new s"
  by simp


subsection \<open>Moving the arrowhead\<close>

lemma only_atD:
  assumes "only_at sub s i" and "occurs_at sub s j"
  shows "j = i"
proof -
  have "j \<le> length s" using assms(2) by (simp add: occurs_at_def)
  then have "j \<in> set [0..<Suc (length s)]" by auto
  then show ?thesis using assms by (auto simp: only_at_def list_all_iff)
qed

lemma contains_occurs: "contains sub s \<Longrightarrow> \<exists>j. occurs_at sub s j"
proof (induction s)
  case Nil
  then show ?case by (auto simp: occurs_at_def)
next
  case (Cons c cs)
  from Cons.prems have "prefix sub (c # cs) \<or> contains sub cs" by simp
  then show ?case
  proof
    assume "prefix sub (c # cs)"
    then obtain t where "c # cs = sub @ t" by (auto simp: prefix_def)
    then have "occurs_at sub (c # cs) 0" by (simp add: occurs_at_def)
    then show ?thesis by blast
  next
    assume "contains sub cs"
    then obtain j where "occurs_at sub cs j" using Cons.IH by blast
    then have "occurs_at sub (c # cs) (Suc j)" by (simp add: occurs_at_def)
    then show ?thesis by blast
  qed
qed

lemma occurs_at_prefix: "occurs_at sub p j \<Longrightarrow> occurs_at sub (p @ r) j"
  by (simp add: occurs_at_def)

lemma occurs_at_suffix: "occurs_at sub r j \<Longrightarrow> occurs_at sub (p @ r) (length p + j)"
  by (simp add: occurs_at_def)

text \<open>No copy in a segment of the text, from the position of the only copy.\<close>

lemma no_copy_before:
  assumes "only_at sub (p @ r) i" and "length p < i + length sub"
  shows "\<not> contains sub p"
proof
  assume "contains sub p"
  then obtain j where j: "occurs_at sub p j" using contains_occurs by blast
  then have "j = i" using only_atD [OF assms(1)] occurs_at_prefix by blast
  then show False using j assms(2) by (simp add: occurs_at_def)
qed

lemma no_copy_after:
  assumes "only_at sub (p @ r) i" and "i < length p"
  shows "\<not> contains sub r"
proof
  assume "contains sub r"
  then obtain j where j: "occurs_at sub r j" using contains_occurs by blast
  then have "length p + j = i" using only_atD [OF assms(1)] occurs_at_suffix by blast
  then show False using assms(2) by simp
qed

lemma prefix_pair_take: "prefix [a, b] (c # p @ s) = prefix [a, b] (c # p @ take 1 s)"
  by (cases p; cases s) auto

lemma replace_skip_pair:
  "\<not> contains [a, b] (p @ take 1 s) \<Longrightarrow>
   replace_py [a, b] new (p @ s) = p @ replace_py [a, b] new s"
proof (induction p)
  case Nil
  then show ?case by simp
next
  case (Cons c p)
  from Cons.prems have np: "\<not> prefix [a, b] (c # p @ take 1 s)"
    and nc: "\<not> contains [a, b] (p @ take 1 s)" by simp_all
  have "\<not> prefix [a, b] (c # p @ s)" using np prefix_pair_take [of a b c p s] by simp
  then have "replace_py [a, b] new (c # p @ s) = c # replace_py [a, b] new (p @ s)"
    by (simp del: replace_py.simps add: replace_miss)
  then show ?case using Cons.IH [OF nc] by simp
qed

text \<open>Dropping a character next to one that is not the first of the pair adds no copy.\<close>

lemma drop_second_no_copy:
  "c \<noteq> a \<Longrightarrow> \<not> contains [a, b] (p @ c # d # r) \<Longrightarrow> \<not> contains [a, b] (p @ c # r)"
proof (induction p)
  case Nil
  then show ?case by (cases r) auto
next
  case (Cons e p)
  then show ?case by (cases p) auto
qed

lemma drop_first_no_copy:
  "d \<noteq> b \<Longrightarrow> \<not> contains [a, b] (p @ c # d # r) \<Longrightarrow> \<not> contains [a, b] (p @ d # r)"
proof (induction p)
  case Nil
  then show ?case by auto
next
  case (Cons e p)
  then show ?case by (cases p) auto
qed

lemma rewrite_right:
  assumes a: "only_at ''->'' (x @ '')-'' @ body @ ''->'' @ y) (length x + 2 + length body)"
    and b: "only_at '')-'' (x @ '')-'' @ body @ ''->'' @ y) (length x)"
  shows "replace_py '')-'' '')<-'' (replace_py ''->'' ''-'' (x @ '')-'' @ body @ ''->'' @ y))
       = x @ '')<-'' @ body @ ''-'' @ y"
proof -
  have a1: "\<not> contains ''->'' ((x @ '')-'' @ body) @ ''-'')"
    using no_copy_before [of "''->''" "(x @ '')-'' @ body) @ ''-''" "''>'' @ y"] a by simp
  have a2: "\<not> contains ''->'' y"
    using no_copy_after [of "''->''" "x @ '')-'' @ body @ ''->''" y] a by simp
  have b1: "\<not> contains '')-'' (x @ '')'')"
    using no_copy_before [of "'')-''" "x @ '')''" "''-'' @ body @ ''->'' @ y"] b by simp
  have b2: "\<not> contains '')-'' (body @ ''->'' @ y)"
    using no_copy_after [of "'')-''" "x @ '')-''" "body @ ''->'' @ y"] b by simp
  have b3: "\<not> contains '')-'' (body @ ''-'' @ y)"
    using drop_second_no_copy [of "CHR ''-''" "CHR '')''" "CHR ''-''" body "CHR ''>''" y] b2
    by simp
  have s1: "replace_py ''->'' ''-'' (x @ '')-'' @ body @ ''->'' @ y)
          = x @ '')-'' @ body @ ''-'' @ y"
  proof -
    have "replace_py ''->'' ''-'' ((x @ '')-'' @ body) @ (''->'' @ y))
        = (x @ '')-'' @ body) @ replace_py ''->'' ''-'' (''->'' @ y)"
      by (rule replace_skip_pair) (use a1 in simp)
    also have "replace_py ''->'' ''-'' (''->'' @ y) = ''-'' @ replace_py ''->'' ''-'' y"
      by (rule replace_hit) simp
    also have "replace_py ''->'' ''-'' y = y"
      by (rule replace_no_copy [OF _ a2]) simp
    finally show ?thesis by simp
  qed
  have s2: "replace_py '')-'' '')<-'' (x @ '')-'' @ body @ ''-'' @ y)
          = x @ '')<-'' @ body @ ''-'' @ y"
  proof -
    have "replace_py '')-'' '')<-'' (x @ ('')-'' @ body @ ''-'' @ y))
        = x @ replace_py '')-'' '')<-'' ('')-'' @ body @ ''-'' @ y)"
      by (rule replace_skip_pair) (use b1 in simp)
    also have "replace_py '')-'' '')<-'' ('')-'' @ body @ ''-'' @ y)
        = '')<-'' @ replace_py '')-'' '')<-'' (body @ ''-'' @ y)"
      by (rule replace_hit) simp
    also have "replace_py '')-'' '')<-'' (body @ ''-'' @ y) = body @ ''-'' @ y"
      by (rule replace_no_copy [OF _ b3]) simp
    finally show ?thesis by simp
  qed
  show ?thesis by (simp only: s1 s2)
qed

lemma rewrite_left:
  assumes a: "only_at ''<-'' (x @ ''<-'' @ body @ ''-('' @ y) (length x)"
    and b: "only_at ''-('' (x @ ''<-'' @ body @ ''-('' @ y) (length x + 2 + length body)"
  shows "replace_py ''-('' ''->('' (replace_py ''<-'' ''-'' (x @ ''<-'' @ body @ ''-('' @ y))
       = x @ ''-'' @ body @ ''->('' @ y"
proof -
  have a1: "\<not> contains ''<-'' (x @ ''<'')"
    using no_copy_before [of "''<-''" "x @ ''<''" "''-'' @ body @ ''-('' @ y"] a by simp
  have a2: "\<not> contains ''<-'' (body @ ''-('' @ y)"
    using no_copy_after [of "''<-''" "x @ ''<-''" "body @ ''-('' @ y"] a by simp
  have b1: "\<not> contains ''-('' ((x @ ''<-'' @ body) @ ''-'')"
    using no_copy_before [of "''-(''" "(x @ ''<-'' @ body) @ ''-''" "''('' @ y"] b by simp
  have b2: "\<not> contains ''-('' y"
    using no_copy_after [of "''-(''" "x @ ''<-'' @ body @ ''-(''" y] b by simp
  have b3: "\<not> contains ''-('' ((x @ ''-'' @ body) @ ''-'')"
    using drop_first_no_copy
      [of "CHR ''-''" "CHR ''(''" "CHR ''-''" x "CHR ''<''" "body @ ''-''"] b1
    by simp
  have s1: "replace_py ''<-'' ''-'' (x @ ''<-'' @ body @ ''-('' @ y)
          = x @ ''-'' @ body @ ''-('' @ y"
  proof -
    have "replace_py ''<-'' ''-'' (x @ (''<-'' @ body @ ''-('' @ y))
        = x @ replace_py ''<-'' ''-'' (''<-'' @ body @ ''-('' @ y)"
      by (rule replace_skip_pair) (use a1 in simp)
    also have "replace_py ''<-'' ''-'' (''<-'' @ body @ ''-('' @ y)
        = ''-'' @ replace_py ''<-'' ''-'' (body @ ''-('' @ y)"
      by (rule replace_hit) simp
    also have "replace_py ''<-'' ''-'' (body @ ''-('' @ y) = body @ ''-('' @ y"
      by (rule replace_no_copy [OF _ a2]) simp
    finally show ?thesis by simp
  qed
  have s2: "replace_py ''-('' ''->('' (x @ ''-'' @ body @ ''-('' @ y)
          = x @ ''-'' @ body @ ''->('' @ y"
  proof -
    have "replace_py ''-('' ''->('' ((x @ ''-'' @ body) @ (''-('' @ y))
        = (x @ ''-'' @ body) @ replace_py ''-('' ''->('' (''-('' @ y)"
      by (rule replace_skip_pair) (use b3 in simp)
    also have "replace_py ''-('' ''->('' (''-('' @ y) = ''->('' @ replace_py ''-('' ''->('' y"
      by (rule replace_hit) simp
    also have "replace_py ''-('' ''->('' y = y"
      by (rule replace_no_copy [OF _ b2]) simp
    finally show ?thesis by simp
  qed
  show ?thesis by (simp only: s1 s2)
qed

section \<open>The documented example\<close>

text \<open>
  Claim C2: on the example of the docstring, the text
  \<open>MATCH (p:Person) RETURN p, [(p)<-[:WORKS_AT]-(o:Organization) | o.name] AS op\<close> with the schema
  \<open>(Person, KNOWS, Person), (Person, WORKS_AT, Organization)\<close>, the corrector returns the text
  with the one arrow reversed: \<open>(p)-[:WORKS_AT]->(o:Organization)\<close>.
\<close>

theorem docstring_example:
  "fix_cypher_relationship_directions
     ''MATCH (p:Person) RETURN p, [(p)<-[:WORKS_AT]-(o:Organization) | o.name] AS op''
     ''(Person, KNOWS, Person), (Person, WORKS_AT, Organization)''
   = Inr ''MATCH (p:Person) RETURN p, [(p)-[:WORKS_AT]->(o:Organization) | o.name] AS op''"
  by code_simp

section \<open>Texts without relationships\<close>

text \<open>
  Claim C9: when the scanner finds no relationship in the text, the corrector returns the
  text as it is, whatever the schema text, and raises nothing.
\<close>

theorem no_relationship_unchanged:
  assumes "finditer_relationships cypher_text = []"
  shows "fix_cypher_relationship_directions cypher_text schema_text = Inr cypher_text"
  using assms
  by (simp add: fix_cypher_relationship_directions_def detect_relationships_def)

theorem no_relationship_unchanged_witness:
  "finditer_relationships ''MATCH (a)-[:R]>(b:B) RETURN a'' = []
   \<and> fix_cypher_relationship_directions ''MATCH (a)-[:R]>(b:B) RETURN a'' ''(A, R)''
       = Inr ''MATCH (a)-[:R]>(b:B) RETURN a''"
proof -
  have h: "finditer_relationships ''MATCH (a)-[:R]>(b:B) RETURN a'' = []"
    by code_simp
  show ?thesis
    using h no_relationship_unchanged [OF h, of "''(A, R)''"] by simp
qed

section \<open>A relationship without a schema counterpart\<close>




section \<open>Relationships that are never corrected\<close>

text \<open>
  Claim C5, as amended: a detected relationship that is undirected, or whose two nodes have
  the same first label (both empty included), or that has a variable length, gets the
  verdict \<open>schema_match = True\<close>, \<open>is_correct = True\<close> as soon as it has one candidate label
  (it has none only when it is negated and the schema holds no other type; then no verdict
  is recorded). The verdict is the same for every schema, the empty one included, so no
  lookup takes part in it, and the step of the corrector's loop for this relationship
  leaves the text as it is.
\<close>

theorem unfixable_occurrence:
  assumes "detect_relationships cypher_text schema0 = Inr rels"
    and "rel \<in> set rels"
    and "is_unfixable rel"
  shows "(multi_labels rel \<noteq> [] \<longrightarrow> verdict_of schema_lst rel = Inr correct_verdict)
       \<and> (multi_labels rel = [] \<longrightarrow>
            is_negated_label rel \<and> verdict_of schema_lst rel = Inr (None, None))
       \<and> verdict_of schema_lst rel = verdict_of [] rel
       \<and> fix_loop (rel # rest) schema_lst buf = fix_loop rest schema_lst buf"
proof -
  have flags: "verdict rel = (None, None)"
    using detected_fields(2,3) [OF assms(1,2)] by (simp add: verdict_def)
  have a: "multi_labels rel \<noteq> [] \<Longrightarrow> verdict_of sch rel = Inr correct_verdict" for sch
    using assms(3) by (rule unfixable_verdict_of)
  have b: "multi_labels rel = [] \<Longrightarrow> verdict_of sch rel = Inr (None, None)" for sch
    using no_labels_verdict_of [of rel sch] flags by simp
  have n: "multi_labels rel = [] \<Longrightarrow> is_negated_label rel"
    using detected_labels [OF assms(1,2)] by blast
  have c: "verdict_of schema_lst rel = verdict_of [] rel"
    using a b by (cases "multi_labels rel = []") simp_all
  have d: "fix_loop (rel # rest) schema_lst buf = fix_loop rest schema_lst buf"
  proof (cases "multi_labels rel = []")
    case True
    show ?thesis by (rule fix_loop_skip [OF b [OF True]]) simp_all
  next
    case False
    show ?thesis by (rule fix_loop_skip [OF a [OF False]]) (simp_all add: correct_verdict_def)
  qed
  show ?thesis using a b n c d by blast
qed

theorem unfixable_occurrence_witness:
  "detect_relationships ''MATCH (a:A)-[:R*1..3]->(b:B) RETURN a'' (process_schema ''(B, R, A)'')
     = Inr (occurrences ''MATCH (a:A)-[:R*1..3]->(b:B) RETURN a'' ''(B, R, A)'')
   \<and> hd (occurrences ''MATCH (a:A)-[:R*1..3]->(b:B) RETURN a'' ''(B, R, A)'')
       \<in> set (occurrences ''MATCH (a:A)-[:R*1..3]->(b:B) RETURN a'' ''(B, R, A)'')
   \<and> is_unfixable (hd (occurrences ''MATCH (a:A)-[:R*1..3]->(b:B) RETURN a'' ''(B, R, A)''))
   \<and> multi_labels (hd (occurrences ''MATCH (a:A)-[:R*1..3]->(b:B) RETURN a'' ''(B, R, A)''))
       = [''R'']
   \<and> verdict_of [[''B'', ''R'', ''A'']]
        (hd (occurrences ''MATCH (a:A)-[:R*1..3]->(b:B) RETURN a'' ''(B, R, A)''))
       = Inr correct_verdict
   \<and> fix_loop [hd (occurrences ''MATCH (a:A)-[:R*1..3]->(b:B) RETURN a'' ''(B, R, A)'')]
        [[''B'', ''R'', ''A'']] ''MATCH (a:A)-[:R*1..3]->(b:B) RETURN a''
       = Inr ''MATCH (a:A)-[:R*1..3]->(b:B) RETURN a''"
proof -
  let ?T = "''MATCH (a:A)-[:R*1..3]->(b:B) RETURN a''"
  let ?S = "''(B, R, A)''"
  have h1: "detect_relationships ?T (process_schema ?S) = Inr (occurrences ?T ?S)"
    by code_simp
  have h2: "hd (occurrences ?T ?S) \<in> set (occurrences ?T ?S)"
    by code_simp
  have h3: "is_unfixable (hd (occurrences ?T ?S))"
    by code_simp
  have h4: "multi_labels (hd (occurrences ?T ?S)) = [''R'']"
    by code_simp
  show ?thesis
    using h1 h2 h3 h4
      unfixable_occurrence [OF h1 h2 h3, of "[[''B'', ''R'', ''A'']]" "[]" ?T]
    by simp
qed

text \<open>
  The claim as stated also promises that the span of such a relationship is never altered.
  The corrector replaces text by content, so a fixable relationship quoted inside the
  property map of an undirected one is rewritten there: the undirected relationship below
  spans the whole text, and the text changes.
\<close>

theorem unfixable_span_counterexample:
  "is_unfixable (hd (occurrences ''(x {s:'(a:A)-->(b:B)'})--(y)'' ''(B, R, A)''))
   \<and> start (object (hd (occurrences ''(x {s:'(a:A)-->(b:B)'})--(y)'' ''(B, R, A)''))) = 0
   \<and> grp (object (hd (occurrences ''(x {s:'(a:A)-->(b:B)'})--(y)'' ''(B, R, A)'')))
        ''whole_relationship'' = ''(x {s:'(a:A)-->(b:B)'})--(y)''
   \<and> fix_cypher_relationship_directions ''(x {s:'(a:A)-->(b:B)'})--(y)'' ''(B, R, A)''
       = Inr ''(x {s:'(a:A)<--(b:B)'})--(y)''"
  by code_simp

section \<open>The loop over the candidate labels\<close>

text \<open>
  Claim C4, as amended: for a relationship whose verdict keys are not set yet, the loop
  over the candidate labels stops at the first label that yields \<open>correct\<close>: the verdict is
  then \<open>correct\<close>, also when earlier labels yielded \<open>needs flip\<close>, and the labels after it
  are not examined (the result is that of the loop cut after this label). When no label
  yields \<open>correct\<close>, every label is examined: the verdict is \<open>needs flip\<close> when the last
  label yields it, and \<open>schema_match = False\<close> when every label yields no match and there is
  at least one label.
\<close>

theorem candidate_loop:
  assumes "is_correct rel = None" and "schema_match rel = None"
  shows "(multi_labels rel = ls1 @ l # ls2
          \<and> (\<forall>l' \<in> set ls1. candidate_verdict rel schema_lst l' = Inr needs_flip
                \<or> candidate_verdict rel schema_lst l' = Inr no_match)
          \<and> candidate_verdict rel schema_lst l = Inr correct_verdict
          \<longrightarrow> verdict_of schema_lst rel = Inr correct_verdict
              \<and> find_relationship_in_schema rel schema_lst = find_labels (ls1 @ [l]) rel schema_lst)
       \<and> (multi_labels rel \<noteq> []
          \<and> (\<forall>l' \<in> set (multi_labels rel). candidate_verdict rel schema_lst l' = Inr needs_flip
                \<or> candidate_verdict rel schema_lst l' = Inr no_match)
          \<and> candidate_verdict rel schema_lst (last (multi_labels rel)) = Inr needs_flip
          \<longrightarrow> verdict_of schema_lst rel = Inr needs_flip)
       \<and> (multi_labels rel \<noteq> []
          \<and> (\<forall>l' \<in> set (multi_labels rel). candidate_verdict rel schema_lst l' = Inr no_match)
          \<longrightarrow> verdict_of schema_lst rel = Inr no_match)"
proof -
  have nt: "is_correct rel \<noteq> Some True" using assms(1) by simp
  have a: "verdict_of schema_lst rel = Inr correct_verdict
           \<and> find_relationship_in_schema rel schema_lst = find_labels (ls1 @ [l]) rel schema_lst"
    if "multi_labels rel = ls1 @ l # ls2"
      and "\<forall>l' \<in> set ls1. candidate_verdict rel schema_lst l' = Inr needs_flip
                \<or> candidate_verdict rel schema_lst l' = Inr no_match"
      and "candidate_verdict rel schema_lst l = Inr correct_verdict"
    using loop_first_correct [OF same_occurrence_refl nt that(2,3), of ls2] that(1)
    by (auto simp: verdict_of_def find_relationship_in_schema_def)
  have b: "verdict_of schema_lst rel = Inr needs_flip"
    if "multi_labels rel \<noteq> []"
      and "\<forall>l' \<in> set (multi_labels rel). candidate_verdict rel schema_lst l' = Inr needs_flip
                \<or> candidate_verdict rel schema_lst l' = Inr no_match"
      and "candidate_verdict rel schema_lst (last (multi_labels rel)) = Inr needs_flip"
    using loop_none_correct [OF same_occurrence_refl nt that(2)] that(1,3)
    by (auto simp: verdict_of_def find_relationship_in_schema_def)
  have c: "verdict_of schema_lst rel = Inr no_match"
    if "multi_labels rel \<noteq> []"
      and n: "\<forall>l' \<in> set (multi_labels rel). candidate_verdict rel schema_lst l' = Inr no_match"
  proof -
    have n': "\<forall>l' \<in> set (multi_labels rel). candidate_verdict rel schema_lst l' = Inr needs_flip
                \<or> candidate_verdict rel schema_lst l' = Inr no_match"
      using n by simp
    have "candidate_verdict rel schema_lst (last (multi_labels rel)) = Inr no_match"
      using n that(1) by simp
    then show ?thesis
      using loop_none_correct [OF same_occurrence_refl nt n'] that(1) n assms(1)
      by (auto simp: verdict_of_def find_relationship_in_schema_def verdict_defs)
  qed
  show ?thesis using a b c by blast
qed


theorem candidate_loop_witness:
  "is_correct (hd (occurrences ''(a:A)-[:X|R|S]->(b:B)'' ''(A, R, B)'')) = None
   \<and> schema_match (hd (occurrences ''(a:A)-[:X|R|S]->(b:B)'' ''(A, R, B)'')) = None
   \<and> multi_labels (hd (occurrences ''(a:A)-[:X|R|S]->(b:B)'' ''(A, R, B)''))
       = [''X'', ''R'', ''S'']
   \<and> candidate_verdict (hd (occurrences ''(a:A)-[:X|R|S]->(b:B)'' ''(A, R, B)''))
        [[''A'', ''R'', ''B'']] ''X'' = Inr no_match
   \<and> candidate_verdict (hd (occurrences ''(a:A)-[:X|R|S]->(b:B)'' ''(A, R, B)''))
        [[''A'', ''R'', ''B'']] ''R'' = Inr correct_verdict
   \<and> verdict_of [[''A'', ''R'', ''B'']]
        (hd (occurrences ''(a:A)-[:X|R|S]->(b:B)'' ''(A, R, B)'')) = Inr correct_verdict
   \<and> is_correct (hd (occurrences ''(a:A)-[:X|R]->(b:B)'' ''(B, R, A)'')) = None
   \<and> schema_match (hd (occurrences ''(a:A)-[:X|R]->(b:B)'' ''(B, R, A)'')) = None
   \<and> multi_labels (hd (occurrences ''(a:A)-[:X|R]->(b:B)'' ''(B, R, A)'')) = [''X'', ''R'']
   \<and> candidate_verdict (hd (occurrences ''(a:A)-[:X|R]->(b:B)'' ''(B, R, A)''))
        [[''B'', ''R'', ''A'']] ''X'' = Inr no_match
   \<and> candidate_verdict (hd (occurrences ''(a:A)-[:X|R]->(b:B)'' ''(B, R, A)''))
        [[''B'', ''R'', ''A'']] ''R'' = Inr needs_flip
   \<and> verdict_of [[''B'', ''R'', ''A'']]
        (hd (occurrences ''(a:A)-[:X|R]->(b:B)'' ''(B, R, A)'')) = Inr needs_flip
   \<and> candidate_verdict (hd (occurrences ''(a:A)-[:X|R]->(b:B)'' ''(B, R, A)''))
        [[''C'', ''R'', ''D'']] ''X'' = Inr no_match
   \<and> candidate_verdict (hd (occurrences ''(a:A)-[:X|R]->(b:B)'' ''(B, R, A)''))
        [[''C'', ''R'', ''D'']] ''R'' = Inr no_match
   \<and> verdict_of [[''C'', ''R'', ''D'']]
        (hd (occurrences ''(a:A)-[:X|R]->(b:B)'' ''(B, R, A)'')) = Inr no_match"
proof -
  let ?r1 = "hd (occurrences ''(a:A)-[:X|R|S]->(b:B)'' ''(A, R, B)'')"
  let ?r2 = "hd (occurrences ''(a:A)-[:X|R]->(b:B)'' ''(B, R, A)'')"
  have a1: "is_correct ?r1 = None" by code_simp
  have a2: "schema_match ?r1 = None" by code_simp
  have a3: "multi_labels ?r1 = [''X''] @ ''R'' # [''S'']" by code_simp
  have a4: "candidate_verdict ?r1 [[''A'', ''R'', ''B'']] ''X'' = Inr no_match" by code_simp
  have a5: "candidate_verdict ?r1 [[''A'', ''R'', ''B'']] ''R'' = Inr correct_verdict"
    by code_simp
  have b1: "is_correct ?r2 = None" by code_simp
  have b2: "schema_match ?r2 = None" by code_simp
  have b3: "multi_labels ?r2 = [''X'', ''R'']" by code_simp
  have b4: "candidate_verdict ?r2 [[''B'', ''R'', ''A'']] ''X'' = Inr no_match" by code_simp
  have b5: "candidate_verdict ?r2 [[''B'', ''R'', ''A'']] ''R'' = Inr needs_flip" by code_simp
  have c4: "candidate_verdict ?r2 [[''C'', ''R'', ''D'']] ''X'' = Inr no_match" by code_simp
  have c5: "candidate_verdict ?r2 [[''C'', ''R'', ''D'']] ''R'' = Inr no_match" by code_simp
  have A: "verdict_of [[''A'', ''R'', ''B'']] ?r1 = Inr correct_verdict"
    using candidate_loop [OF a1 a2, of "[''X'']" "''R''" "[''S'']" "[[''A'', ''R'', ''B'']]"]
      a3 a4 a5 by simp
  have B: "verdict_of [[''B'', ''R'', ''A'']] ?r2 = Inr needs_flip"
    using candidate_loop [OF b1 b2, of "[]" "[]" "[]" "[[''B'', ''R'', ''A'']]"] b3 b4 b5
    by simp
  have C: "verdict_of [[''C'', ''R'', ''D'']] ?r2 = Inr no_match"
    using candidate_loop [OF b1 b2, of "[]" "[]" "[]" "[[''C'', ''R'', ''D'']]"] b3 c4 c5
    by simp
  show ?thesis
    using a1 a2 a3 a4 a5 A b1 b2 b3 b4 b5 B c4 c5 C by simp
qed

text \<open>
  The claim as stated lets the first label that yields \<open>correct\<close> or \<open>needs flip\<close> decide.
  Here the first label \<open>R\<close> yields \<open>needs flip\<close> and the second label \<open>S\<close> yields
  \<open>correct\<close>: the verdict is \<open>correct\<close> and the text is kept.
\<close>

theorem first_candidate_counterexample:
  "\<not> is_unfixable (hd (occurrences ''(a:A)-[:R|S]->(b:B)'' ''(B, R, A), (A, S, B)''))
   \<and> is_multi_label (hd (occurrences ''(a:A)-[:R|S]->(b:B)'' ''(B, R, A), (A, S, B)''))
   \<and> map (candidate_verdict (hd (occurrences ''(a:A)-[:R|S]->(b:B)'' ''(B, R, A), (A, S, B)''))
        (process_schema ''(B, R, A), (A, S, B)''))
        (multi_labels (hd (occurrences ''(a:A)-[:R|S]->(b:B)'' ''(B, R, A), (A, S, B)'')))
       = [Inr (Some True, Some False), Inr (Some True, Some True)]
   \<and> occurrence_verdicts ''(a:A)-[:R|S]->(b:B)'' ''(B, R, A), (A, S, B)''
       = Inr [Inr (Some True, Some True)]
   \<and> fix_cypher_relationship_directions ''(a:A)-[:R|S]->(b:B)'' ''(B, R, A), (A, S, B)''
       = Inr ''(a:A)-[:R|S]->(b:B)''"
  by code_simp

section \<open>Failures\<close>

text \<open>
  Claim C6, as amended: the schema normaliser rejects nothing (a group that does not split
  into three fields becomes an entry with that many fields). The corrector fails only with
  IndexError, and only when some entry of the schema has fewer than three fields: a lookup
  by columns, or the expansion of a negated type, then reads a field the entry lacks. With
  three fields or more in every entry the call returns.
\<close>

theorem only_index_error:
  assumes "fix_cypher_relationship_directions cypher_text schema_text = Inl e"
  shows "e = IndexError \<and> \<not> three_fields (process_schema schema_text)"
proof (cases "detect_relationships cypher_text (process_schema schema_text)")
  case (Inl e')
  then have "e' = e" using assms by (simp add: fix_cypher_relationship_directions_def)
  then show ?thesis using Inl detect_all_err by (simp add: detect_relationships_def)
next
  case (Inr rels)
  then have "\<forall>q \<in> set rels. detected q"
    using detected_fields [OF Inr] by (simp add: detected_def)
  moreover have "fix_loop rels (process_schema schema_text) cypher_text = Inl e"
    using assms Inr by (simp add: fix_cypher_relationship_directions_def)
  ultimately show ?thesis by (rule fix_loop_err)
qed

theorem only_index_error_witness:
  "fix_cypher_relationship_directions ''MATCH (a:A)-[:R]->(b) RETURN a'' ''(A, S)''
     = Inl IndexError
   \<and> \<not> three_fields (process_schema ''(A, S)'')"
proof -
  have h: "fix_cypher_relationship_directions ''MATCH (a:A)-[:R]->(b) RETURN a'' ''(A, S)''
     = Inl IndexError"
    by code_simp
  show ?thesis using h only_index_error [OF h] by simp
qed

text \<open>
  The claim as stated makes every malformed schema a failure. Groups of two, four and one
  fields are accepted, and the calls below return.
\<close>

theorem malformed_schema_counterexample:
  "process_schema ''(A, R)'' = [[''A'', ''R'']]
   \<and> fix_cypher_relationship_directions ''MATCH (a:A)-[:R]->(b:B) RETURN a'' ''(A, R)''
       = Inr []
   \<and> fix_cypher_relationship_directions ''MATCH (a:A)-[:R]->(b) RETURN a'' ''(A, R)''
       = Inr ''MATCH (a:A)-[:R]->(b) RETURN a''
   \<and> process_schema ''(A, R, B, C), (D)'' = [[''A'', ''R'', ''B'', ''C''], [''D'']]
   \<and> fix_cypher_relationship_directions ''MATCH (a:A)-[:R]->(b:B) RETURN a''
        ''(A, R, B, C), (D)'' = Inr []"
  by code_simp

section \<open>Labels inherited from other declarations\<close>

text \<open>
  Claim C10: a node of a detected relationship that has no first label of its own gets the
  first label of the last labelled node declaration, in text order, that has the same
  variable name, and the empty label when there is none. The variable name is only
  compared as a string, so the empty name of an anonymous node is a key like any other:
  \<open>()\<close> inherits the label of the last labelled anonymous node of the text.
\<close>

theorem label_fallback:
  assumes "detect_relationships cypher_text schema_lst = Inr rels" and "rel \<in> set rels"
  shows "label1 (node1 rel) =
           (if first_label (grp (object rel) ''node1_labels'') \<noteq> []
            then first_label (grp (object rel) ''node1_labels'')
            else inherited_label cypher_text (grp (object rel) ''node1_var_name''))
       \<and> label1 (node2 rel) =
           (if first_label (grp (object rel) ''node2_labels'') \<noteq> []
            then first_label (grp (object rel) ''node2_labels'')
            else inherited_label cypher_text (grp (object rel) ''node2_var_name''))"
proof -
  obtain m where d: "detect_one cypher_text schema_lst m = Inr rel"
    using assms detect_all_mem unfolding detect_relationships_def by blast
  have o: "object rel = m" using detect_one_fields(1) [OF d] .
  show ?thesis
    using detect_one_nodes [OF d] o
    by (simp add: detect_node_labels_def Let_def propagate_label)
qed

theorem label_fallback_witness:
  "detect_relationships ''MATCH (:Person), (:City) MATCH ()-[:IN]->(c) RETURN c''
      (process_schema ''(City, IN, Country)'')
     = Inr (occurrences ''MATCH (:Person), (:City) MATCH ()-[:IN]->(c) RETURN c''
              ''(City, IN, Country)'')
   \<and> hd (occurrences ''MATCH (:Person), (:City) MATCH ()-[:IN]->(c) RETURN c''
              ''(City, IN, Country)'')
       \<in> set (occurrences ''MATCH (:Person), (:City) MATCH ()-[:IN]->(c) RETURN c''
              ''(City, IN, Country)'')
   \<and> grp (object (hd (occurrences ''MATCH (:Person), (:City) MATCH ()-[:IN]->(c) RETURN c''
              ''(City, IN, Country)''))) ''node1_var_name'' = []
   \<and> first_label (grp (object (hd (occurrences
          ''MATCH (:Person), (:City) MATCH ()-[:IN]->(c) RETURN c''
          ''(City, IN, Country)''))) ''node1_labels'') = []
   \<and> map start (labelled_as ''MATCH (:Person), (:City) MATCH ()-[:IN]->(c) RETURN c'' [])
       = [6, 17]
   \<and> inherited_label ''MATCH (:Person), (:City) MATCH ()-[:IN]->(c) RETURN c'' [] = ''City''
   \<and> label1 (node1 (hd (occurrences ''MATCH (:Person), (:City) MATCH ()-[:IN]->(c) RETURN c''
              ''(City, IN, Country)''))) = ''City''
   \<and> label1 (node2 (hd (occurrences ''MATCH (:Person), (:City) MATCH ()-[:IN]->(c) RETURN c''
              ''(City, IN, Country)''))) = []"
proof -
  let ?T = "''MATCH (:Person), (:City) MATCH ()-[:IN]->(c) RETURN c''"
  let ?S = "''(City, IN, Country)''"
  have h1: "detect_relationships ?T (process_schema ?S) = Inr (occurrences ?T ?S)"
    by code_simp
  have h2: "hd (occurrences ?T ?S) \<in> set (occurrences ?T ?S)"
    by code_simp
  have h3: "grp (object (hd (occurrences ?T ?S))) ''node1_var_name'' = []"
    by code_simp
  have h4: "first_label (grp (object (hd (occurrences ?T ?S))) ''node1_labels'') = []"
    by code_simp
  have h5: "map start (labelled_as ?T []) = [6, 17]"
    by code_simp
  have h6: "inherited_label ?T [] = ''City''"
    by code_simp
  have h7: "grp (object (hd (occurrences ?T ?S))) ''node2_var_name'' = ''c''"
    by code_simp
  have h8: "first_label (grp (object (hd (occurrences ?T ?S))) ''node2_labels'') = []"
    by code_simp
  have h9: "inherited_label ?T ''c'' = []"
    by code_simp
  show ?thesis
    using h1 h2 h3 h4 h5 h6 h7 h8 h9 label_fallback [OF h1 h2]
    by simp
qed

section \<open>Negated relationship types\<close>




section \<open>The rewrite of one relationship\<close>

text \<open>
  Claim C3, as amended: the direction corrector replaces, in the current text, every copy
  of the text that the relationship matched by its rewritten form: the text is the pieces
  between the copies joined by the matched text, the result is the same pieces joined by
  the rewritten form, and a text without a copy is returned as it is. The rewritten form
  is computed from the matched text alone. When the matched text is \<open>x)-body->y\<close>,
  where \<open>->\<close> occurs in it only before \<open>y\<close> and \<open>)-\<close> only after \<open>x\<close>, the rewritten form
  is \<open>x)<-body-y\<close>; when it is \<open>x<-body-(y\<close>, where \<open><-\<close> occurs in it only after \<open>x\<close> and
  \<open>-(\<close> only before \<open>y\<close>, the rewritten form is \<open>x-body->(y\<close>: only the arrowhead moves,
  and both nodes and the body of the relationship, with whatever hyphens, parentheses
  and angle brackets they hold, are kept byte for byte.
\<close>

theorem switch_direction_rewrite:
  assumes "direction rel = Some ''>'' \<or> direction rel = Some ''<''"
    and "grp (object rel) ''whole_relationship'' = old"
    and "old \<noteq> []"
  shows "switch_direction buf rel = Inr (join_py (rewritten_form rel) (split_py old buf))
       \<and> buf = join_py old (split_py old buf)
       \<and> (\<not> contains old buf \<longrightarrow> switch_direction buf rel = Inr buf)
       \<and> (direction rel = Some ''>'' \<and> old = x @ '')-'' @ body @ ''->'' @ y
            \<and> only_at '')-'' old (length x)
            \<and> only_at ''->'' old (length x + 2 + length body)
           \<longrightarrow> rewritten_form rel = x @ '')<-'' @ body @ ''-'' @ y)
       \<and> (direction rel = Some ''<'' \<and> old = x @ ''<-'' @ body @ ''-('' @ y
            \<and> only_at ''<-'' old (length x)
            \<and> only_at ''-('' old (length x + 2 + length body)
           \<longrightarrow> rewritten_form rel = x @ ''-'' @ body @ ''->('' @ y)"
proof -
  have sw: "switch_direction buf rel = Inr (replace_py old (rewritten_form rel) buf)"
    using assms(1,2) by (auto simp: switch_direction_def rewritten_form_def Let_def)
  have a: "switch_direction buf rel = Inr (join_py (rewritten_form rel) (split_py old buf))"
    using sw replace_is_join(1) [OF assms(3), of "rewritten_form rel" buf] by simp
  have b: "buf = join_py old (split_py old buf)"
    by (rule replace_is_join(2) [OF assms(3)])
  have c: "\<not> contains old buf \<Longrightarrow> switch_direction buf rel = Inr buf"
    using sw replace_no_copy [OF assms(3), of buf "rewritten_form rel"] by simp
  have d: "rewritten_form rel = x @ '')<-'' @ body @ ''-'' @ y"
    if "direction rel = Some ''>''" "old = x @ '')-'' @ body @ ''->'' @ y"
      "only_at '')-'' old (length x)" "only_at ''->'' old (length x + 2 + length body)"
  proof -
    have "rewritten_form rel = replace_py '')-'' '')<-'' (replace_py ''->'' ''-'' old)"
      using that(1) assms(2) by (simp add: rewritten_form_def)
    then show ?thesis
      using rewrite_right [of x body y] that(2,3,4) by (simp only:)
  qed
  have e: "rewritten_form rel = x @ ''-'' @ body @ ''->('' @ y"
    if "direction rel = Some ''<''" "old = x @ ''<-'' @ body @ ''-('' @ y"
      "only_at ''<-'' old (length x)" "only_at ''-('' old (length x + 2 + length body)"
  proof -
    have "rewritten_form rel = replace_py ''-('' ''->('' (replace_py ''<-'' ''-'' old)"
      using that(1) assms(2) by (simp add: rewritten_form_def)
    then show ?thesis
      using rewrite_left [of x body y] that(2,3,4) by (simp only:)
  qed
  show ?thesis using a b c d e by blast
qed

theorem switch_direction_rewrite_witness:
  "direction (hd (occurrences
       ''MATCH (a:A {n:'Jean-Luc'})-[r:R]->(b:B {d:f(1)}) RETURN r'' ''(B, R, A)''))
       = Some ''>''
   \<and> grp (object (hd (occurrences
       ''MATCH (a:A {n:'Jean-Luc'})-[r:R]->(b:B {d:f(1)}) RETURN r'' ''(B, R, A)'')))
        ''whole_relationship''
       = ''(a:A {n:'Jean-Luc'}'' @ '')-'' @ ''[r:R]'' @ ''->'' @ ''(b:B {d:f(1)})''
   \<and> only_at '')-''
        (''(a:A {n:'Jean-Luc'}'' @ '')-'' @ ''[r:R]'' @ ''->'' @ ''(b:B {d:f(1)})'')
        (length ''(a:A {n:'Jean-Luc'}'')
   \<and> only_at ''->''
        (''(a:A {n:'Jean-Luc'}'' @ '')-'' @ ''[r:R]'' @ ''->'' @ ''(b:B {d:f(1)})'')
        (length ''(a:A {n:'Jean-Luc'}'' + 2 + length ''[r:R]'')
   \<and> rewritten_form (hd (occurrences
       ''MATCH (a:A {n:'Jean-Luc'})-[r:R]->(b:B {d:f(1)}) RETURN r'' ''(B, R, A)''))
       = ''(a:A {n:'Jean-Luc'})<-[r:R]-(b:B {d:f(1)})''
   \<and> switch_direction ''MATCH (a:A {n:'Jean-Luc'})-[r:R]->(b:B {d:f(1)}) RETURN r''
        (hd (occurrences
          ''MATCH (a:A {n:'Jean-Luc'})-[r:R]->(b:B {d:f(1)}) RETURN r'' ''(B, R, A)''))
       = Inr ''MATCH (a:A {n:'Jean-Luc'})<-[r:R]-(b:B {d:f(1)}) RETURN r''
   \<and> \<not> contains
         (''(a:A {n:'Jean-Luc'}'' @ '')-'' @ ''[r:R]'' @ ''->'' @ ''(b:B {d:f(1)})'')
         ''RETURN 1''
   \<and> switch_direction ''RETURN 1''
        (hd (occurrences
          ''MATCH (a:A {n:'Jean-Luc'})-[r:R]->(b:B {d:f(1)}) RETURN r'' ''(B, R, A)''))
       = Inr ''RETURN 1''
   \<and> direction (hd (occurrences
       ''MATCH (p:Person) RETURN p, [(p)<-[:WORKS_AT]-(o:Organization) | o.name] AS op''
       ''(Person, WORKS_AT, Organization)'')) = Some ''<''
   \<and> grp (object (hd (occurrences
       ''MATCH (p:Person) RETURN p, [(p)<-[:WORKS_AT]-(o:Organization) | o.name] AS op''
       ''(Person, WORKS_AT, Organization)''))) ''whole_relationship''
       = ''(p)'' @ ''<-'' @ ''[:WORKS_AT]'' @ ''-('' @ ''o:Organization)''
   \<and> only_at ''<-'' (''(p)'' @ ''<-'' @ ''[:WORKS_AT]'' @ ''-('' @ ''o:Organization)'')
        (length ''(p)'')
   \<and> only_at ''-('' (''(p)'' @ ''<-'' @ ''[:WORKS_AT]'' @ ''-('' @ ''o:Organization)'')
        (length ''(p)'' + 2 + length ''[:WORKS_AT]'')
   \<and> rewritten_form (hd (occurrences
       ''MATCH (p:Person) RETURN p, [(p)<-[:WORKS_AT]-(o:Organization) | o.name] AS op''
       ''(Person, WORKS_AT, Organization)'')) = ''(p)-[:WORKS_AT]->(o:Organization)''
   \<and> switch_direction
        ''MATCH (p:Person) RETURN p, [(p)<-[:WORKS_AT]-(o:Organization) | o.name] AS op''
        (hd (occurrences
          ''MATCH (p:Person) RETURN p, [(p)<-[:WORKS_AT]-(o:Organization) | o.name] AS op''
          ''(Person, WORKS_AT, Organization)''))
       = Inr ''MATCH (p:Person) RETURN p, [(p)-[:WORKS_AT]->(o:Organization) | o.name] AS op''"
proof -
  let ?T1 = "''MATCH (a:A {n:'Jean-Luc'})-[r:R]->(b:B {d:f(1)}) RETURN r''"
  let ?r1 = "hd (occurrences ?T1 ''(B, R, A)'')"
  let ?o1 = "''(a:A {n:'Jean-Luc'}'' @ '')-'' @ ''[r:R]'' @ ''->'' @ ''(b:B {d:f(1)})''"
  let ?T2 = "''MATCH (p:Person) RETURN p, [(p)<-[:WORKS_AT]-(o:Organization) | o.name] AS op''"
  let ?r2 = "hd (occurrences ?T2 ''(Person, WORKS_AT, Organization)'')"
  let ?o2 = "''(p)'' @ ''<-'' @ ''[:WORKS_AT]'' @ ''-('' @ ''o:Organization)''"
  have d1: "direction ?r1 = Some ''>''" by code_simp
  have g1: "grp (object ?r1) ''whole_relationship'' = ?o1" by code_simp
  have u1: "only_at '')-'' ?o1 (length ''(a:A {n:'Jean-Luc'}'')" by code_simp
  have v1: "only_at ''->'' ?o1 (length ''(a:A {n:'Jean-Luc'}'' + 2 + length ''[r:R]'')"
    by code_simp
  have n1: "\<not> contains ?o1 ''RETURN 1''" by code_simp
  have j1: "join_py ''(a:A {n:'Jean-Luc'})<-[r:R]-(b:B {d:f(1)})'' (split_py ?o1 ?T1)
          = ''MATCH (a:A {n:'Jean-Luc'})<-[r:R]-(b:B {d:f(1)}) RETURN r''"
    by code_simp
  have d2: "direction ?r2 = Some ''<''" by code_simp
  have g2: "grp (object ?r2) ''whole_relationship'' = ?o2" by code_simp
  have u2: "only_at ''<-'' ?o2 (length ''(p)'')" by code_simp
  have v2: "only_at ''-('' ?o2 (length ''(p)'' + 2 + length ''[:WORKS_AT]'')" by code_simp
  have j2: "join_py ''(p)-[:WORKS_AT]->(o:Organization)'' (split_py ?o2 ?T2)
          = ''MATCH (p:Person) RETURN p, [(p)-[:WORKS_AT]->(o:Organization) | o.name] AS op''"
    by code_simp
  have ne1: "?o1 \<noteq> []" and ne2: "?o2 \<noteq> []" by simp_all
  note t1 = switch_direction_rewrite [OF disjI1 [OF d1] g1 ne1,
      where x = "''(a:A {n:'Jean-Luc'}''" and body = "''[r:R]''" and y = "''(b:B {d:f(1)})''"]
  note t2 = switch_direction_rewrite [OF disjI2 [OF d2] g2 ne2,
      where x = "''(p)''" and body = "''[:WORKS_AT]''" and y = "''o:Organization)''"]
  have f1: "rewritten_form ?r1 = ''(a:A {n:'Jean-Luc'})<-[r:R]-(b:B {d:f(1)})''"
    using t1 [of ?T1] d1 u1 v1 by simp
  have s1: "switch_direction ?T1 ?r1
      = Inr ''MATCH (a:A {n:'Jean-Luc'})<-[r:R]-(b:B {d:f(1)}) RETURN r''"
    using t1 [of ?T1] f1 j1 by simp
  have s3: "switch_direction ''RETURN 1'' ?r1 = Inr ''RETURN 1''"
    using t1 [of "''RETURN 1''"] n1 by blast
  have f2: "rewritten_form ?r2 = ''(p)-[:WORKS_AT]->(o:Organization)''"
    using t2 [of ?T2] d2 u2 v2 by simp
  have s2: "switch_direction ?T2 ?r2
      = Inr ''MATCH (p:Person) RETURN p, [(p)-[:WORKS_AT]->(o:Organization) | o.name] AS op''"
    using t2 [of ?T2] f2 j2 by simp
  show ?thesis
    using d1 g1 u1 v1 f1 s1 n1 s3 d2 g2 u2 v2 f2 s2 by (simp only: simp_thms)
qed

text \<open>
  The claim as stated confines the rewrite to the span of the relationship. The first
  relationship below spans the characters 6 to 22; rewriting it also rewrites the copy
  that follows. The second text shows that the replacement is by content inside the span
  as well: an arrow written in a property value loses its head.
\<close>

theorem switch_direction_counterexample:
  "start (object (hd (occurrences
       ''MATCH (a:A)-[:R]->(b:B) MATCH (a:A)-[:R]->(b:B) RETURN a'' ''(B, R, A)''))) = 6
   \<and> grp (object (hd (occurrences
       ''MATCH (a:A)-[:R]->(b:B) MATCH (a:A)-[:R]->(b:B) RETURN a'' ''(B, R, A)'')))
        ''whole_relationship'' = ''(a:A)-[:R]->(b:B)''
   \<and> verdict_of (process_schema ''(B, R, A)'')
        (hd (occurrences
          ''MATCH (a:A)-[:R]->(b:B) MATCH (a:A)-[:R]->(b:B) RETURN a'' ''(B, R, A)''))
       = Inr (Some True, Some False)
   \<and> switch_direction ''MATCH (a:A)-[:R]->(b:B) MATCH (a:A)-[:R]->(b:B) RETURN a''
        (hd (occurrences
          ''MATCH (a:A)-[:R]->(b:B) MATCH (a:A)-[:R]->(b:B) RETURN a'' ''(B, R, A)''))
       = Inr ''MATCH (a:A)<-[:R]-(b:B) MATCH (a:A)<-[:R]-(b:B) RETURN a''
   \<and> verdict_of (process_schema ''(B, R, A)'')
        (hd (occurrences ''MATCH (a:A)-[r:R {k:'->'}]->(b:B) RETURN r'' ''(B, R, A)''))
       = Inr (Some True, Some False)
   \<and> switch_direction ''MATCH (a:A)-[r:R {k:'->'}]->(b:B) RETURN r''
        (hd (occurrences ''MATCH (a:A)-[r:R {k:'->'}]->(b:B) RETURN r'' ''(B, R, A)''))
       = Inr ''MATCH (a:A)<-[r:R {k:'-'}]-(b:B) RETURN r''"
  by code_simp

section \<open>A second run of the corrector\<close>

text \<open>
  Claim C8 asks that the corrector returns its own non-empty result unchanged. On the text
  below the first run reverses the first arrow and, because the replacement also rewrites
  the \<open>)-\<close> inside the property value of the shared node, no longer finds the text of the
  second relationship; the second run reverses the second arrow.
\<close>

theorem idempotence_failing_input:
  "fix_cypher_relationship_directions
     ''MATCH (a:A)-[:R]->(b:B {k:')-'})-[:S]->(c:C) RETURN a'' ''(B, R, A), (C, S, B)''
     = Inr ''MATCH (a:A)<-[:R]-(b:B {k:')<-'})-[:S]->(c:C) RETURN a''
   \<and> fix_cypher_relationship_directions
     ''MATCH (a:A)<-[:R]-(b:B {k:')<-'})-[:S]->(c:C) RETURN a'' ''(B, R, A), (C, S, B)''
     = Inr ''MATCH (a:A)<-[:R]-(b:B {k:')<-'})<-[:S]-(c:C) RETURN a''"
  by code_simp

end
